theory Spec2Isabelle
  imports
    Main
    "HOL-Library.Word"
    "HOL-Library.AList"
    "HOL-Library.Char_ord"
    "HOL-Library.List_Lexorder"
begin

unbundle bit_operations_syntax

section \<open>Instruction encoding\<close>

text \<open>
  The assembler of \<^verbatim>\<open>package asm\<close>. \<^verbatim>\<open>type OpCode uint8\<close> is an 8-bit word;
  \<^verbatim>\<open>type Reg int\<close> is Go's \<^verbatim>\<open>int\<close>, 64 bits wide on the targets the package is
  built for (amd64, ppc64el), read signed through \<open>sint\<close>; \<^verbatim>\<open>int16\<close> and \<^verbatim>\<open>int32\<close>
  are 16- and 32-bit words, the conversions \<^verbatim>\<open>uint16(offset)\<close>, \<^verbatim>\<open>int16(...)\<close> between
  the signed and the unsigned type of one width keep the bits.
\<close>

type_synonym OpCode = "8 word"
type_synonym Reg = "64 word"

definition R0 :: Reg where "R0 = 0"
definition R1 :: Reg where "R1 = 1"
definition R2 :: Reg where "R2 = 2"
definition R3 :: Reg where "R3 = 3"
definition R4 :: Reg where "R4 = 4"
definition R5 :: Reg where "R5 = 5"
definition R6 :: Reg where "R6 = 6"
definition R7 :: Reg where "R7 = 7"
definition R8 :: Reg where "R8 = 8"
definition R9 :: Reg where "R9 = 9"
definition R10 :: Reg where "R10 = 10"
definition RPseudoMapFD :: Reg where "RPseudoMapFD = 1"

subsection \<open>Opcode parts and the opcodes the builder methods below use\<close>

definition OpClassLoadImm :: OpCode where "OpClassLoadImm = 0x0"
definition OpClassLoadReg :: OpCode where "OpClassLoadReg = 0x1"
definition OpClassStoreImm :: OpCode where "OpClassStoreImm = 0x2"
definition OpClassStoreReg :: OpCode where "OpClassStoreReg = 0x3"
definition OpClassALU32 :: OpCode where "OpClassALU32 = 0x4"
definition OpClassJump64 :: OpCode where "OpClassJump64 = 0x5"
definition OpClassJump32 :: OpCode where "OpClassJump32 = 0x6"
definition OpClassALU64 :: OpCode where "OpClassALU64 = 0x7"
definition OpClassMask :: OpCode where "OpClassMask = 0x7"

definition MemOpModeImm :: OpCode where "MemOpModeImm = 0x00"
definition MemOpModeMem :: OpCode where "MemOpModeMem = 0x60"
definition MemOpSize8 :: OpCode where "MemOpSize8 = 0x10"
definition MemOpSize16 :: OpCode where "MemOpSize16 = 0x08"
definition MemOpSize32 :: OpCode where "MemOpSize32 = 0x00"
definition MemOpSize64 :: OpCode where "MemOpSize64 = 0x18"

definition ALUOpAdd :: OpCode where "ALUOpAdd = 0x00"
definition ALUOpAnd :: OpCode where "ALUOpAnd = 0x50"
definition ALUOpMov :: OpCode where "ALUOpMov = 0xb0"
definition ALUSrcImm :: OpCode where "ALUSrcImm = 0x0"
definition ALUSrcReg :: OpCode where "ALUSrcReg = 0x8"

definition JumpOpA :: OpCode where "JumpOpA = 0x00"
definition JumpOpEq :: OpCode where "JumpOpEq = 0x10"
definition JumpOpCall :: OpCode where "JumpOpCall = 0x80"
definition JumpOpExit :: OpCode where "JumpOpExit = 0x90"

definition StoreReg8 :: OpCode where "StoreReg8 = OpClassStoreReg OR MemOpModeMem OR MemOpSize8"
definition StoreReg16 :: OpCode where "StoreReg16 = OpClassStoreReg OR MemOpModeMem OR MemOpSize16"
definition StoreReg32 :: OpCode where "StoreReg32 = OpClassStoreReg OR MemOpModeMem OR MemOpSize32"
definition StoreReg64 :: OpCode where "StoreReg64 = OpClassStoreReg OR MemOpModeMem OR MemOpSize64"
definition StoreImm8 :: OpCode where "StoreImm8 = OpClassStoreImm OR MemOpModeImm OR MemOpSize8"
definition StoreImm16 :: OpCode where "StoreImm16 = OpClassStoreImm OR MemOpModeImm OR MemOpSize16"
definition StoreImm32 :: OpCode where "StoreImm32 = OpClassStoreImm OR MemOpModeImm OR MemOpSize32"
definition StoreImm64 :: OpCode where "StoreImm64 = OpClassStoreImm OR MemOpModeImm OR MemOpSize64"
definition LoadReg8 :: OpCode where "LoadReg8 = OpClassLoadReg OR MemOpModeMem OR MemOpSize8"
definition LoadReg16 :: OpCode where "LoadReg16 = OpClassLoadReg OR MemOpModeMem OR MemOpSize16"
definition LoadReg32 :: OpCode where "LoadReg32 = OpClassLoadReg OR MemOpModeMem OR MemOpSize32"
definition LoadReg64 :: OpCode where "LoadReg64 = OpClassLoadReg OR MemOpModeMem OR MemOpSize64"
definition LoadImm64 :: OpCode where "LoadImm64 = OpClassLoadImm OR MemOpModeImm OR MemOpSize64"
definition LoadImm64Pt2 :: OpCode where "LoadImm64Pt2 = 0"
definition JumpEq64 :: OpCode where "JumpEq64 = OpClassJump64 OR ALUSrcReg OR JumpOpEq"
definition JumpEqImm64 :: OpCode where "JumpEqImm64 = OpClassJump64 OR ALUSrcImm OR JumpOpEq"
definition JumpEq32 :: OpCode where "JumpEq32 = OpClassJump32 OR ALUSrcReg OR JumpOpEq"
definition JumpA :: OpCode where "JumpA = OpClassJump64 OR ALUSrcImm OR JumpOpA"
definition Call :: OpCode where "Call = OpClassJump64 OR ALUSrcImm OR JumpOpCall"
definition Exit :: OpCode where "Exit = OpClassJump64 OR ALUSrcImm OR JumpOpExit"
definition Add64 :: OpCode where "Add64 = OpClassALU64 OR ALUSrcReg OR ALUOpAdd"
definition Mov64 :: OpCode where "Mov64 = OpClassALU64 OR ALUSrcReg OR ALUOpMov"
definition MovImm64 :: OpCode where "MovImm64 = OpClassALU64 OR ALUSrcImm OR ALUOpMov"
definition MovImm32 :: OpCode where "MovImm32 = OpClassALU32 OR ALUSrcImm OR ALUOpMov"
definition And32 :: OpCode where "And32 = OpClassALU32 OR ALUSrcReg OR ALUOpAnd"
definition AndImm32 :: OpCode where "AndImm32 = OpClassALU32 OR ALUSrcImm OR ALUOpAnd"

subsection \<open>The 8-byte instruction\<close>

text \<open>
  \<^verbatim>\<open>Insn\<close> holds the 8 bytes (\<^verbatim>\<open>[InstructionSize]uint8\<close>, here a list that
  \<open>MakeInsn\<close> builds with 8 elements) and the diagnostic metadata.
\<close>

record Insn =
  Instruction :: "8 word list"
  Labels :: "string list"
  Comments :: "string list"
  Annotation :: string

type_synonym Insns = "Insn list"

text \<open>
  \<^verbatim>\<open>binary.LittleEndian\<close>, least significant byte first. The Go functions take a
  slice \<^verbatim>\<open>a[i:j]\<close> of the instruction's array and read or write its first bytes in
  place; here they take the array and the index \<open>i\<close> where the slice starts.
\<close>

definition PutUint16 :: "nat \<Rightarrow> 16 word \<Rightarrow> 8 word list \<Rightarrow> 8 word list" where
  "PutUint16 i v bs = bs[i := ucast v, i + 1 := ucast (drop_bit 8 v)]"

definition PutUint32 :: "nat \<Rightarrow> 32 word \<Rightarrow> 8 word list \<Rightarrow> 8 word list" where
  "PutUint32 i v bs =
     bs[i := ucast v, i + 1 := ucast (drop_bit 8 v),
        i + 2 := ucast (drop_bit 16 v), i + 3 := ucast (drop_bit 24 v)]"

definition Uint16 :: "nat \<Rightarrow> 8 word list \<Rightarrow> 16 word" where
  "Uint16 i bs = ucast (bs ! i) OR push_bit 8 (ucast (bs ! (i + 1)))"

definition Uint32 :: "nat \<Rightarrow> 8 word list \<Rightarrow> 32 word" where
  "Uint32 i bs = ucast (bs ! i) OR push_bit 8 (ucast (bs ! (i + 1)))
     OR push_bit 16 (ucast (bs ! (i + 2))) OR push_bit 24 (ucast (bs ! (i + 3)))"

text \<open>
  \<^verbatim>\<open>[8]uint8{uint8(opcode), uint8(src<<4 | dst), 0, 0, 0, 0, 0, 0}\<close>, then
  \<^verbatim>\<open>PutUint16\<close> writes bytes 2-3 and \<^verbatim>\<open>PutUint32\<close> bytes 4-7.
  \<^verbatim>\<open>uint8(...)\<close> of the \<^verbatim>\<open>int\<close> keeps the low 8 bits.
\<close>

definition MakeInsn :: "OpCode \<Rightarrow> Reg \<Rightarrow> Reg \<Rightarrow> 16 word \<Rightarrow> 32 word \<Rightarrow> Insn" where
  "MakeInsn opcode dst src offset imm =
     \<lparr>Instruction =
        PutUint32 4 imm
          (PutUint16 2 offset [opcode, ucast (push_bit 4 src OR dst), 0, 0, 0, 0, 0, 0]),
      Labels = [], Comments = [], Annotation = ''''\<rparr>"

definition OpCode :: "Insn \<Rightarrow> OpCode" where
  "OpCode n = Instruction n ! 0"

definition Dst :: "Insn \<Rightarrow> Reg" where
  "Dst n = ucast (Instruction n ! 1 AND 0xf)"

definition Src :: "Insn \<Rightarrow> Reg" where
  "Src n = ucast (drop_bit 4 (Instruction n ! 1) AND 0xf)"

definition Off :: "Insn \<Rightarrow> 16 word" where
  "Off n = Uint16 2 (Instruction n)"

definition Imm :: "Insn \<Rightarrow> 32 word" where
  "Imm n = Uint32 4 (Instruction n)"

definition IsNoOp :: "Insn \<Rightarrow> bool" where
  "IsNoOp n = (OpCode n = Mov64 \<and> Dst n = Src n)"

definition OpClass :: "Insn \<Rightarrow> OpCode" where
  "OpClass n = OpCode n AND OpClassMask"

definition AsBytes :: "Insns \<Rightarrow> 8 word list" where
  "AsBytes ns = concat (map Instruction ns)"

section \<open>The Block builder\<close>

text \<open>
  \<^verbatim>\<open>Block\<close> is the mutable builder; every method becomes a function from the Block
  before the call to the Block after it (to a panic or that Block, for the methods with
  a panic in them). The Go maps that are only looked up, written
  and deleted from are HOL maps; \<^verbatim>\<open>fixUps\<close>, which is also ranged over, is an
  association list (one entry per key, kept so by \<open>AList.update\<close> and \<open>AList.delete\<close>)
  whose order stands for the unspecified order in which Go ranges over a map.
  Instruction indices and \<^verbatim>\<open>len(b.insns)\<close> are natural numbers; where the source
  subtracts them the model subtracts in \<open>int\<close>.
\<close>

datatype fixUp = FixUp (origInsnIdx: nat)

text \<open>
  The errors of \<^verbatim>\<open>applyFixUps\<close> (three \<^verbatim>\<open>fmt.Errorf\<close> messages) and the wrapping
  that \<^verbatim>\<open>LabelNextInsn\<close> adds before it stores the deferred error.
\<close>

datatype asm_error =
    MissingLabel string
  | JumpToSameInsn int string
  | JumpOutOfRange int string
  | FixUpsFailed string nat asm_error

text \<open>
  The spec's RangeError: the computed offset is -1 or does not fit 16 bits; its
  UnboundLabelError: the label has fixups and no index.
\<close>

fun isRangeError :: "asm_error \<Rightarrow> bool" where
  "isRangeError (MissingLabel l) = False"
| "isRangeError (JumpToSameInsn off l) = True"
| "isRangeError (JumpOutOfRange off l) = True"
| "isRangeError (FixUpsFailed l n e) = isRangeError e"

fun isUnboundLabelError :: "asm_error \<Rightarrow> bool" where
  "isUnboundLabelError (MissingLabel l) = True"
| "isUnboundLabelError (JumpToSameInsn off l) = False"
| "isUnboundLabelError (JumpOutOfRange off l) = False"
| "isUnboundLabelError (FixUpsFailed l n e) = isUnboundLabelError e"

record Block =
  insns :: Insns
  fixUps :: "(string \<times> fixUp list) list"
  labelToInsnIdx :: "string \<rightharpoonup> nat"
  insnIdxToLabels :: "nat \<rightharpoonup> string list"
  insnIdxToComments :: "nat \<rightharpoonup> string list"
  inUseJumpTargets :: "string set"
  policyDebugEnabled :: bool
  trampolinesEnabled :: bool
  trampolineIdx :: nat
  lastTrampolineAddr :: nat
  deferredErr :: "asm_error option"
  NumJumps :: int
  trampolineStride :: int

definition MaxInt16 :: int where "MaxInt16 = 32767"
definition MinInt16 :: int where "MinInt16 = - 32768"
definition trampolineHeadroom :: int where "trampolineHeadroom = 100"
definition TrampolineStrideDefault :: int where
  "TrampolineStrideDefault = MaxInt16 - trampolineHeadroom"

definition NewBlock :: "bool \<Rightarrow> Block" where
  "NewBlock dbg =
     \<lparr>insns = [], fixUps = [], labelToInsnIdx = Map.empty, insnIdxToLabels = Map.empty,
      insnIdxToComments = Map.empty, inUseJumpTargets = {}, policyDebugEnabled = dbg,
      trampolinesEnabled = True, trampolineIdx = 0, lastTrampolineAddr = 0,
      deferredErr = None, NumJumps = 0, trampolineStride = TrampolineStrideDefault\<rparr>"

text \<open>
  \<^verbatim>\<open>NewBlock\<close> allocates every map of the Block, and the Blocks of the model are such
  Blocks: Go's zero \<^verbatim>\<open>Block\<close>, whose maps are nil and on which the first write to a map
  panics, is not among them. Reading a Go map of slices at a missing key gives the nil
  (empty) slice.
\<close>

definition labelsAt :: "Block \<Rightarrow> nat \<Rightarrow> string list" where
  "labelsAt b idx = (case insnIdxToLabels b idx of None \<Rightarrow> [] | Some ls \<Rightarrow> ls)"

definition commentsAt :: "Block \<Rightarrow> nat \<Rightarrow> string list" where
  "commentsAt b idx = (case insnIdxToComments b idx of None \<Rightarrow> [] | Some cs \<Rightarrow> cs)"

definition fixUpsFor :: "Block \<Rightarrow> string \<Rightarrow> fixUp list" where
  "fixUpsFor b l = (case map_of (fixUps b) l of None \<Rightarrow> [] | Some fs \<Rightarrow> fs)"

definition nextInsnReachable :: "Block \<Rightarrow> bool" where
  "nextInsnReachable b =
     (if length (insns b) = 0 then True
      else
        let lastInsn = insns b ! (length (insns b) - 1);
            lastOpCode = OpCode lastInsn
        in if lastOpCode = JumpA \<or> lastOpCode = Exit
           then (\<exists>l \<in> set (labelsAt b (length (insns b))). l \<in> inUseJumpTargets b)
           else True)"

text \<open>
  \<^verbatim>\<open>addInsnWithOffsetFixupNoTrampoline\<close>; the debug logging is left out. The empty
  target label means "no fixup".
\<close>

definition addInsnWithOffsetFixupNoTrampoline :: "Insn \<Rightarrow> string \<Rightarrow> Block \<Rightarrow> Block" where
  "addInsnWithOffsetFixupNoTrampoline insn targetLabel b =
     (if \<not> nextInsnReachable b then
        b\<lparr>labelToInsnIdx :=
             fold (\<lambda>l m. m(l := None)) (labelsAt b (length (insns b))) (labelToInsnIdx b),
          insnIdxToLabels := (insnIdxToLabels b)(length (insns b) := None)\<rparr>
      else
        let b1 = b\<lparr>insns := insns b @ [insn]\<rparr>;
            b2 =
              (if targetLabel \<noteq> '''' then
                 let b1a =
                       (if policyDebugEnabled b1
                        then b1\<lparr>insns := (insns b1)[length (insns b1) - 1 :=
                                (insns b1 ! (length (insns b1) - 1))
                                  \<lparr>Annotation := ''goto '' @ targetLabel\<rparr>]\<rparr>
                        else b1);
                     b1b = b1a\<lparr>inUseJumpTargets := insert targetLabel (inUseJumpTargets b1a)\<rparr>
                 in b1b\<lparr>fixUps := AList.update targetLabel
                           (fixUpsFor b1b targetLabel @ [FixUp (length (insns b1b) - 1)])
                           (fixUps b1b)\<rparr>
               else b1)
        in if OpClass insn = OpClassJump64 \<or> OpClass insn = OpClassJump32
           then b2\<lparr>NumJumps := NumJumps b2 + 1\<rparr>
           else b2)"

definition JumpNoTrampoline :: "string \<Rightarrow> Block \<Rightarrow> Block" where
  "JumpNoTrampoline endLabel b =
     addInsnWithOffsetFixupNoTrampoline (MakeInsn JumpA 0 0 0 0) endLabel b"

text \<open>
  \<^verbatim>\<open>binary.LittleEndian.PutUint16(insn.Instruction[2:4], v)\<close> on an instruction of
  the Block: bytes 2 and 3 are overwritten, the others stay.
\<close>

definition putOffset :: "Insn \<Rightarrow> 16 word \<Rightarrow> Insn" where
  "putOffset n v = n\<lparr>Instruction := PutUint16 2 v (Instruction n)\<rparr>"

text \<open>
  The loop of \<^verbatim>\<open>applyFixUps\<close> over \<^verbatim>\<open>b.fixUps[targetLabel]\<close>. It returns at the
  first failing fixup, and the instructions patched before that stay patched.
  \<^verbatim>\<open>uint16(offset)\<close> is \<open>word_of_int\<close>. An \<^verbatim>\<open>origInsnIdx\<close> beyond the instructions
  would panic in Go; no Block built through the methods holds one (lemma
  \<open>run_wfBlock\<close> below), and here the list update leaves such a list as it is.
\<close>

fun applyFixUps_loop :: "string \<Rightarrow> fixUp list \<Rightarrow> Block \<Rightarrow> Block \<times> asm_error option" where
  "applyFixUps_loop targetLabel [] b = (b, None)"
| "applyFixUps_loop targetLabel (f # fs) b =
     (case labelToInsnIdx b targetLabel of
        None \<Rightarrow> (b, Some (MissingLabel targetLabel))
      | Some labelIdx \<Rightarrow>
          let offset = int labelIdx - int (origInsnIdx f) - 1 in
          if offset = - 1 then (b, Some (JumpToSameInsn offset targetLabel))
          else if offset > MaxInt16 \<or> offset < MinInt16
          then (b, Some (JumpOutOfRange offset targetLabel))
          else applyFixUps_loop targetLabel fs
                 (b\<lparr>insns := (insns b)[origInsnIdx f :=
                      putOffset (insns b ! origInsnIdx f) (word_of_int offset)]\<rparr>))"

definition applyFixUps :: "string \<Rightarrow> Block \<Rightarrow> Block \<times> asm_error option" where
  "applyFixUps targetLabel b =
     (case applyFixUps_loop targetLabel (fixUpsFor b targetLabel) b of
        (b', Some err) \<Rightarrow> (b', Some err)
      | (b', None) \<Rightarrow> (b'\<lparr>fixUps := AList.delete targetLabel (fixUps b')\<rparr>, None))"

definition LabelNextInsn :: "string \<Rightarrow> Block \<Rightarrow> Block" where
  "LabelNextInsn label b =
     (let b1 = b\<lparr>labelToInsnIdx := (labelToInsnIdx b)(label \<mapsto> length (insns b))\<rparr>;
          b2 = b1\<lparr>insnIdxToLabels := (insnIdxToLabels b1)
                  (length (insns b1) \<mapsto> labelsAt b1 (length (insns b1)) @ [label])\<rparr>
      in case applyFixUps label b2 of
           (b3, None) \<Rightarrow> b3
         | (b3, Some err) \<Rightarrow>
             if deferredErr b3 = None
             then b3\<lparr>deferredErr := Some (FixUpsFailed label (length (insns b3)) err)\<rparr>
             else b3)"

text \<open>\<^verbatim>\<open>fmt.Sprintf("%d", n)\<close> for a count: the decimal digits of \<open>n\<close>.\<close>

function decimal :: "nat \<Rightarrow> string" where
  "decimal n =
     (if n < 10 then [''0123456789'' ! n]
      else decimal (n div 10) @ [''0123456789'' ! (n mod 10)])"
  by pat_completeness auto
termination
  by (relation "measure id") auto

declare decimal.simps [simp del]

text \<open>
  \<^verbatim>\<open>writeTrampoline\<close>: the keys of \<^verbatim>\<open>fixUps\<close> are collected and sorted
  (\<^verbatim>\<open>sort.Strings\<close>: bytewise lexicographic, the order of \<open>string\<close> here).
\<close>

definition writeTrampoline :: "Block \<Rightarrow> Block" where
  "writeTrampoline b =
     (let b1 = b\<lparr>lastTrampolineAddr := length (insns b)\<rparr> in
      if length (fixUps b1) = 0 then b1
      else
        let labels = sort (map fst (fixUps b1));
            endLabel = ''skip-trampoline-'' @ decimal (trampolineIdx b1);
            b2 = b1\<lparr>trampolineIdx := trampolineIdx b1 + 1\<rparr>;
            b3 = JumpNoTrampoline endLabel b2;
            b4 = fold (\<lambda>label b. JumpNoTrampoline label (LabelNextInsn label b)) labels b3
        in LabelNextInsn endLabel b4)"

definition maybeWriteTrampoline :: "Insn \<Rightarrow> Block \<Rightarrow> Block" where
  "maybeWriteTrampoline nextInsn b =
     (if \<not> trampolinesEnabled b then b
      else if int (length (insns b)) - int (lastTrampolineAddr b) < trampolineStride b then b
      else if OpCode nextInsn = LoadImm64Pt2 then b
      else writeTrampoline b)"

definition addInsnWithOffsetFixup :: "Insn \<Rightarrow> string \<Rightarrow> Block \<Rightarrow> Block" where
  "addInsnWithOffsetFixup insn targetLabel b =
     addInsnWithOffsetFixupNoTrampoline insn targetLabel (maybeWriteTrampoline insn b)"

definition addInsn :: "Insn \<Rightarrow> Block \<Rightarrow> Block" where
  "addInsn insn b = addInsnWithOffsetFixup insn '''' b"

text \<open>
  \<^verbatim>\<open>add\<close> and \<^verbatim>\<open>addWithOffsetFixup\<close> also return the instruction they built, which
  no builder method uses; the model returns the Block. \<^verbatim>\<open>Instr\<close> and
  \<^verbatim>\<open>InstrWithOffsetFixup\<close> are their exported names.
\<close>

definition add :: "OpCode \<Rightarrow> Reg \<Rightarrow> Reg \<Rightarrow> 16 word \<Rightarrow> 32 word \<Rightarrow> string \<Rightarrow> Block \<Rightarrow> Block" where
  "add opcode dst src offset imm annotation b =
     addInsn ((MakeInsn opcode dst src offset imm)\<lparr>Annotation := annotation\<rparr>) b"

definition addWithOffsetFixup :: "OpCode \<Rightarrow> Reg \<Rightarrow> Reg \<Rightarrow> string \<Rightarrow> 32 word \<Rightarrow> Block \<Rightarrow> Block" where
  "addWithOffsetFixup opcode dst src offsetLabel imm b =
     addInsnWithOffsetFixup (MakeInsn opcode dst src 0 imm) offsetLabel b"

definition Instr :: "OpCode \<Rightarrow> Reg \<Rightarrow> Reg \<Rightarrow> 16 word \<Rightarrow> 32 word \<Rightarrow> string \<Rightarrow> Block \<Rightarrow> Block" where
  "Instr opcode dst src offset imm annotation b = add opcode dst src offset imm annotation b"

definition InstrWithOffsetFixup :: "OpCode \<Rightarrow> Reg \<Rightarrow> Reg \<Rightarrow> string \<Rightarrow> 32 word \<Rightarrow> Block \<Rightarrow> Block" where
  "InstrWithOffsetFixup opcode dst src offsetLabel imm b =
     addWithOffsetFixup opcode dst src offsetLabel imm b"

text \<open>
  \<^verbatim>\<open>Assemble\<close>. The loop \<^verbatim>\<open>for label := range b.fixUps\<close> visits every key the map
  has when the loop starts (\<^verbatim>\<open>applyFixUps\<close> deletes only the key being visited) and
  returns at the first error. The result is the error (Go's \<^verbatim>\<open>nil, err\<close>) or the
  instructions (\<^verbatim>\<open>b.insns, nil\<close>); the Block is not used after the call.
\<close>

fun Assemble_loop :: "string list \<Rightarrow> Block \<Rightarrow> Block \<times> asm_error option" where
  "Assemble_loop [] b = (b, None)"
| "Assemble_loop (label # labels) b =
     (case applyFixUps label b of
        (b', Some err) \<Rightarrow> (b', Some err)
      | (b', None) \<Rightarrow> Assemble_loop labels b')"

definition addDebugInfo :: "Block \<Rightarrow> Insns" where
  "addDebugInfo b =
     map (\<lambda>idx.
            let n = insns b ! idx;
                n1 = (case insnIdxToLabels b idx of
                        Some labels \<Rightarrow> n\<lparr>Labels := Labels n @ labels\<rparr>
                      | None \<Rightarrow> n)
            in (case insnIdxToComments b idx of
                  Some comments \<Rightarrow> n1\<lparr>Comments := Comments n1 @ comments\<rparr>
                | None \<Rightarrow> n1))
         [0 ..< length (insns b)]"

definition Assemble :: "Block \<Rightarrow> asm_error + Insns" where
  "Assemble b =
     (case deferredErr b of
        Some e \<Rightarrow> Inl e
      | None \<Rightarrow>
          (case Assemble_loop (map fst (fixUps b)) b of
             (b', Some err) \<Rightarrow> Inl err
           | (b', None) \<Rightarrow>
               Inr (if policyDebugEnabled b' then addDebugInfo b' else insns b')))"

definition TargetIsUsed :: "string \<Rightarrow> Block \<Rightarrow> bool" where
  "TargetIsUsed label b = (label \<in> inUseJumpTargets b)"

definition UnresolvedJumpTargets :: "Block \<Rightarrow> string list" where
  "UnresolvedJumpTargets b = sort (map fst (fixUps b))"

definition AddComment :: "string \<Rightarrow> Block \<Rightarrow> Block" where
  "AddComment comment b =
     (if \<not> policyDebugEnabled b then b
      else b\<lparr>insnIdxToComments := (insnIdxToComments b)
               (length (insns b) \<mapsto> commentsAt b (length (insns b)) @ [comment])\<rparr>)"

text \<open>
  A builder method returns no error value; what it can do instead of returning is panic.
  The two run-time panics of the methods below: an index outside a slice (the index and
  the length of the slice), and \<^verbatim>\<open>make\<close> asked for a capacity it cannot allocate.
\<close>

datatype panic =
    IndexOutOfRange int nat
  | MakesliceCapOutOfRange

text \<open>
  \<^verbatim>\<open>ReserveInstructionCapacity\<close> changes the capacity of the slice only, which is not
  part of the Block here. \<^verbatim>\<open>cap(b.insns)\<close> lies between \<^verbatim>\<open>len(b.insns)\<close> and
  \<open>maxCap\<close>, the largest capacity \<^verbatim>\<open>make\<close> allocates for a slice of \<^verbatim>\<open>Insn\<close> on the
  platform (a parameter). For \<^verbatim>\<open>n\<close> up to the capacity the method returns at once, and
  \<open>n \<le> maxCap\<close> then; for a larger \<^verbatim>\<open>n\<close>, \<^verbatim>\<open>make(Insns, len(b.insns), n)\<close> panics
  (makeslice: cap out of range) exactly when \<open>maxCap < n\<close>, the length being below \<^verbatim>\<open>n\<close>.
  So the call panics exactly when \<open>maxCap < n\<close>, and leaves the Block as it is otherwise.
\<close>

definition ReserveInstructionCapacity :: "int \<Rightarrow> int \<Rightarrow> Block \<Rightarrow> panic + Block" where
  "ReserveInstructionCapacity maxCap n b =
     (if maxCap < n then Inl MakesliceCapOutOfRange else Inr b)"

definition SetTrampolinesEnabled :: "bool \<Rightarrow> Block \<Rightarrow> Block" where
  "SetTrampolinesEnabled en b = b\<lparr>trampolinesEnabled := en\<rparr>"

definition SetTrampolineStride :: "int \<Rightarrow> Block \<Rightarrow> Block" where
  "SetTrampolineStride s b = (if s > 0 \<and> s < 2 ^ 14 then b\<lparr>trampolineStride := s\<rparr> else b)"

subsection \<open>Named builder methods\<close>

text \<open>
  Every instruction-named method is one call of \<^verbatim>\<open>add\<close> or of
  \<^verbatim>\<open>addWithOffsetFixup\<close> (two of \<^verbatim>\<open>add\<close> for the double-length loads); the ones
  used below follow, the method \<^verbatim>\<open>(*Block).Mov64\<close> as \<open>Block_Mov64\<close>, since \<open>Mov64\<close>
  is the opcode. In \<^verbatim>\<open>LoadImm64\<close>, \<^verbatim>\<open>int32(imm)\<close> keeps the low half of the
  \<^verbatim>\<open>int64\<close> and \<^verbatim>\<open>int32(imm>>32)\<close> the high half.
\<close>

definition Block_Mov64 :: "Reg \<Rightarrow> Reg \<Rightarrow> Block \<Rightarrow> Block" where
  "Block_Mov64 dst src b = add Mov64 dst src 0 0 '''' b"

definition Block_NoOp :: "Block \<Rightarrow> Block" where
  "Block_NoOp b = Block_Mov64 R0 R0 b"

definition Block_MovImm64 :: "Reg \<Rightarrow> 32 word \<Rightarrow> Block \<Rightarrow> Block" where
  "Block_MovImm64 dst imm b = add MovImm64 dst 0 0 imm '''' b"

definition Block_Add64 :: "Reg \<Rightarrow> Reg \<Rightarrow> Block \<Rightarrow> Block" where
  "Block_Add64 dst src b = add Add64 dst src 0 0 '''' b"

definition Block_StoreStack64 :: "Reg \<Rightarrow> 16 word \<Rightarrow> Block \<Rightarrow> Block" where
  "Block_StoreStack64 src offset b = add StoreReg64 R10 src offset 0 '''' b"

definition Block_LoadImm64 :: "Reg \<Rightarrow> 64 word \<Rightarrow> Block \<Rightarrow> Block" where
  "Block_LoadImm64 dst imm b =
     add LoadImm64Pt2 0 0 0 (ucast (signed_drop_bit 32 imm)) ''''
       (add LoadImm64 dst 0 0 (ucast imm) '''' b)"

definition Block_LoadMapFD :: "Reg \<Rightarrow> 32 word \<Rightarrow> Block \<Rightarrow> Block" where
  "Block_LoadMapFD dst fd b =
     add LoadImm64Pt2 0 0 0 0 '''' (add LoadImm64 dst RPseudoMapFD 0 fd '''' b)"

definition Block_Jump :: "string \<Rightarrow> Block \<Rightarrow> Block" where
  "Block_Jump label b = addWithOffsetFixup JumpA 0 0 label 0 b"

definition Block_JumpEq64 :: "Reg \<Rightarrow> Reg \<Rightarrow> string \<Rightarrow> Block \<Rightarrow> Block" where
  "Block_JumpEq64 ra rb label b = addWithOffsetFixup JumpEq64 ra rb label 0 b"

definition Block_JumpEqImm64 :: "Reg \<Rightarrow> 32 word \<Rightarrow> string \<Rightarrow> Block \<Rightarrow> Block" where
  "Block_JumpEqImm64 ra imm label b = addWithOffsetFixup JumpEqImm64 ra 0 label imm b"

definition Block_Exit :: "Block \<Rightarrow> Block" where
  "Block_Exit b = add Exit 0 0 0 0 '''' b"

subsection \<open>Methods that build an annotation\<close>

text \<open>
  \<^verbatim>\<open>buildAnnotation\<close> formats the debug annotation of the loads, the stores and
  \<^verbatim>\<open>Call\<close>. Two things it uses are declared outside this file and are parameters here:
  \<open>regString\<close>, the \<^verbatim>\<open>String\<close> method that \<^verbatim>\<open>stringer\<close> generates for \<^verbatim>\<open>Reg\<close>
  (\<^verbatim>\<open>%s\<close> of a register), and \<open>HelperString\<close>, the table of helper names, indexed by the
  \<^verbatim>\<open>int32\<close> immediate. Indexing the table outside its bounds panics; nothing else in
  the function can. \<^verbatim>\<open>%d\<close> prints a signed decimal. The two \<^verbatim>\<open>switch\<close> statements take
  the first case that lists the opcode.
\<close>

record FieldOffset =
  Offset :: "16 word"
  Field' :: string

definition decimalInt :: "int \<Rightarrow> string" where
  "decimalInt i = (if i < 0 then ''-'' @ decimal (nat (- i)) else decimal (nat i))"

definition buildAnnotation ::
  "(Reg \<Rightarrow> string) \<Rightarrow> string list \<Rightarrow> OpCode \<Rightarrow> Reg \<Rightarrow> Reg \<Rightarrow> FieldOffset \<Rightarrow> 32 word \<Rightarrow> Block
     \<Rightarrow> panic + string" where
  "buildAnnotation regString HelperString opcode src dst fo imm b =
     (if \<not> policyDebugEnabled b then Inr ''''
      else
        let cast =
              (if opcode = StoreReg8 \<or> opcode = LoadReg8 \<or> opcode = StoreImm8 then ''u8''
               else if opcode = StoreReg16 \<or> opcode = LoadReg16 \<or> opcode = StoreImm16
               then ''u16''
               else if opcode = StoreReg32 \<or> opcode = LoadReg32 \<or> opcode = StoreImm32
               then ''u32''
               else if opcode = StoreReg64 \<or> opcode = LoadReg64 \<or> opcode = StoreImm64
                       \<or> opcode = LoadImm64
               then ''u64''
               else '''')
        in if opcode = StoreReg8 \<or> opcode = StoreReg16 \<or> opcode = StoreReg32
              \<or> opcode = StoreReg64
           then Inr (''*('' @ cast @ '' *) ('' @ regString dst @ '' + ''
                     @ decimalInt (sint (Offset fo)) @ '') /* '' @ Field' fo @ '' */ = ''
                     @ regString src)
           else if opcode = LoadReg8 \<or> opcode = LoadReg16 \<or> opcode = LoadReg32
                   \<or> opcode = LoadReg64
           then Inr (regString dst @ '' = *('' @ cast @ '' *)('' @ regString src @ '' + ''
                     @ decimalInt (sint (Offset fo)) @ '') /* '' @ Field' fo @ '' */'')
           else if opcode = StoreImm8 \<or> opcode = StoreImm16 \<or> opcode = StoreImm32
                   \<or> opcode = StoreImm64
           then Inr (''*('' @ cast @ '' *) ('' @ regString dst @ '' + ''
                     @ decimalInt (sint (Offset fo)) @ '') /* '' @ Field' fo @ '' */ = ''
                     @ decimalInt (sint imm))
           else if opcode = Call
           then (if 0 \<le> sint imm \<and> sint imm < int (length HelperString)
                 then Inr (''call '' @ HelperString ! nat (sint imm))
                 else Inl (IndexOutOfRange (sint imm) (length HelperString)))
           else Inr '''')"

text \<open>
  The methods that call it: the annotation is built first, then \<^verbatim>\<open>add\<close> appends the
  instruction, so a panic leaves the Block without it. \<^verbatim>\<open>Call\<close> passes
  \<^verbatim>\<open>int32(helperID)\<close>, which the model takes as its argument.
\<close>

definition Block_Load8 ::
  "(Reg \<Rightarrow> string) \<Rightarrow> string list \<Rightarrow> Reg \<Rightarrow> Reg \<Rightarrow> FieldOffset \<Rightarrow> Block \<Rightarrow> panic + Block" where
  "Block_Load8 regString HelperString dst ptrReg fo b =
     (case buildAnnotation regString HelperString LoadReg8 ptrReg dst fo 0 b of
        Inl p \<Rightarrow> Inl p
      | Inr annotation \<Rightarrow> Inr (add LoadReg8 dst ptrReg (Offset fo) 0 annotation b))"

definition Block_Load16 ::
  "(Reg \<Rightarrow> string) \<Rightarrow> string list \<Rightarrow> Reg \<Rightarrow> Reg \<Rightarrow> FieldOffset \<Rightarrow> Block \<Rightarrow> panic + Block" where
  "Block_Load16 regString HelperString dst ptrReg fo b =
     (case buildAnnotation regString HelperString LoadReg16 ptrReg dst fo 0 b of
        Inl p \<Rightarrow> Inl p
      | Inr annotation \<Rightarrow> Inr (add LoadReg16 dst ptrReg (Offset fo) 0 annotation b))"

definition Block_Load32 ::
  "(Reg \<Rightarrow> string) \<Rightarrow> string list \<Rightarrow> Reg \<Rightarrow> Reg \<Rightarrow> FieldOffset \<Rightarrow> Block \<Rightarrow> panic + Block" where
  "Block_Load32 regString HelperString dst ptrReg fo b =
     (case buildAnnotation regString HelperString LoadReg32 ptrReg dst fo 0 b of
        Inl p \<Rightarrow> Inl p
      | Inr annotation \<Rightarrow> Inr (add LoadReg32 dst ptrReg (Offset fo) 0 annotation b))"

definition Block_Load64 ::
  "(Reg \<Rightarrow> string) \<Rightarrow> string list \<Rightarrow> Reg \<Rightarrow> Reg \<Rightarrow> FieldOffset \<Rightarrow> Block \<Rightarrow> panic + Block" where
  "Block_Load64 regString HelperString dst ptrReg fo b =
     (case buildAnnotation regString HelperString LoadReg64 ptrReg dst fo 0 b of
        Inl p \<Rightarrow> Inl p
      | Inr annotation \<Rightarrow> Inr (add LoadReg64 dst ptrReg (Offset fo) 0 annotation b))"

definition Block_Load ::
  "(Reg \<Rightarrow> string) \<Rightarrow> string list \<Rightarrow> Reg \<Rightarrow> Reg \<Rightarrow> FieldOffset \<Rightarrow> OpCode \<Rightarrow> Block
     \<Rightarrow> panic + Block" where
  "Block_Load regString HelperString dst ptrReg fo sz b =
     (let ins = OpClassLoadReg OR MemOpModeMem OR sz in
      case buildAnnotation regString HelperString ins ptrReg dst fo 0 b of
        Inl p \<Rightarrow> Inl p
      | Inr annotation \<Rightarrow> Inr (add ins dst ptrReg (Offset fo) 0 annotation b))"

definition Block_Store8 ::
  "(Reg \<Rightarrow> string) \<Rightarrow> string list \<Rightarrow> Reg \<Rightarrow> Reg \<Rightarrow> FieldOffset \<Rightarrow> Block \<Rightarrow> panic + Block" where
  "Block_Store8 regString HelperString dst ptrReg fo b =
     (case buildAnnotation regString HelperString StoreReg8 ptrReg dst fo 0 b of
        Inl p \<Rightarrow> Inl p
      | Inr annotation \<Rightarrow> Inr (add StoreReg8 dst ptrReg (Offset fo) 0 annotation b))"

definition Block_Store16 ::
  "(Reg \<Rightarrow> string) \<Rightarrow> string list \<Rightarrow> Reg \<Rightarrow> Reg \<Rightarrow> FieldOffset \<Rightarrow> Block \<Rightarrow> panic + Block" where
  "Block_Store16 regString HelperString dst ptrReg fo b =
     (case buildAnnotation regString HelperString StoreReg16 ptrReg dst fo 0 b of
        Inl p \<Rightarrow> Inl p
      | Inr annotation \<Rightarrow> Inr (add StoreReg16 dst ptrReg (Offset fo) 0 annotation b))"

definition Block_Store32 ::
  "(Reg \<Rightarrow> string) \<Rightarrow> string list \<Rightarrow> Reg \<Rightarrow> Reg \<Rightarrow> FieldOffset \<Rightarrow> Block \<Rightarrow> panic + Block" where
  "Block_Store32 regString HelperString dst ptrReg fo b =
     (case buildAnnotation regString HelperString StoreReg32 ptrReg dst fo 0 b of
        Inl p \<Rightarrow> Inl p
      | Inr annotation \<Rightarrow> Inr (add StoreReg32 dst ptrReg (Offset fo) 0 annotation b))"

definition Block_Store64 ::
  "(Reg \<Rightarrow> string) \<Rightarrow> string list \<Rightarrow> Reg \<Rightarrow> Reg \<Rightarrow> FieldOffset \<Rightarrow> Block \<Rightarrow> panic + Block" where
  "Block_Store64 regString HelperString dst ptrReg fo b =
     (case buildAnnotation regString HelperString StoreReg64 ptrReg dst fo 0 b of
        Inl p \<Rightarrow> Inl p
      | Inr annotation \<Rightarrow> Inr (add StoreReg64 dst ptrReg (Offset fo) 0 annotation b))"

definition Block_Call ::
  "(Reg \<Rightarrow> string) \<Rightarrow> string list \<Rightarrow> 32 word \<Rightarrow> Block \<Rightarrow> panic + Block" where
  "Block_Call regString HelperString helperID b =
     (case buildAnnotation regString HelperString Call 0 0 \<lparr>Offset = 0, Field' = ''''\<rparr>
             helperID b of
        Inl p \<Rightarrow> Inl p
      | Inr annotation \<Rightarrow> Inr (add Call 0 0 0 helperID annotation b))"

subsection \<open>Call sequences\<close>

text \<open>
  A builder call sequence over the exported methods that have no panic in them: the
  generic \<^verbatim>\<open>Instr\<close> and \<^verbatim>\<open>InstrWithOffsetFixup\<close> (every instruction-named method
  that builds no annotation is one or two of these), \<^verbatim>\<open>JumpNoTrampoline\<close>,
  \<^verbatim>\<open>LabelNextInsn\<close>, \<^verbatim>\<open>AddComment\<close> and the two trampoline setters.
\<close>

datatype call =
    CallInstr OpCode Reg Reg "16 word" "32 word" string
  | CallInstrWithOffsetFixup OpCode Reg Reg string "32 word"
  | CallJumpNoTrampoline string
  | CallLabelNextInsn string
  | CallAddComment string
  | CallSetTrampolinesEnabled bool
  | CallSetTrampolineStride int

fun exec :: "call \<Rightarrow> Block \<Rightarrow> Block" where
  "exec (CallInstr opcode dst src offset imm annotation) b =
     Instr opcode dst src offset imm annotation b"
| "exec (CallInstrWithOffsetFixup opcode dst src label imm) b =
     InstrWithOffsetFixup opcode dst src label imm b"
| "exec (CallJumpNoTrampoline label) b = JumpNoTrampoline label b"
| "exec (CallLabelNextInsn label) b = LabelNextInsn label b"
| "exec (CallAddComment comment) b = AddComment comment b"
| "exec (CallSetTrampolinesEnabled en) b = SetTrampolinesEnabled en b"
| "exec (CallSetTrampolineStride s) b = SetTrampolineStride s b"

fun run :: "call list \<Rightarrow> Block \<Rightarrow> Block" where
  "run [] b = b"
| "run (c # cs) b = run cs (exec c b)"

text \<open>
  All builder calls: the ones above, the methods that build an annotation and
  \<^verbatim>\<open>ReserveInstructionCapacity\<close>. A call returns the Block or panics, and a panic ends
  the sequence.
\<close>

datatype builderCall =
    Plain call
  | CallLoad8 Reg Reg FieldOffset
  | CallLoad16 Reg Reg FieldOffset
  | CallLoad32 Reg Reg FieldOffset
  | CallLoad64 Reg Reg FieldOffset
  | CallLoad Reg Reg FieldOffset OpCode
  | CallStore8 Reg Reg FieldOffset
  | CallStore16 Reg Reg FieldOffset
  | CallStore32 Reg Reg FieldOffset
  | CallStore64 Reg Reg FieldOffset
  | CallCall "32 word"
  | CallReserveInstructionCapacity int

fun execBuilder ::
  "(Reg \<Rightarrow> string) \<Rightarrow> string list \<Rightarrow> int \<Rightarrow> builderCall \<Rightarrow> Block \<Rightarrow> panic + Block" where
  "execBuilder regString HelperString maxCap (Plain c) b = Inr (exec c b)"
| "execBuilder regString HelperString maxCap (CallLoad8 dst ptrReg fo) b =
     Block_Load8 regString HelperString dst ptrReg fo b"
| "execBuilder regString HelperString maxCap (CallLoad16 dst ptrReg fo) b =
     Block_Load16 regString HelperString dst ptrReg fo b"
| "execBuilder regString HelperString maxCap (CallLoad32 dst ptrReg fo) b =
     Block_Load32 regString HelperString dst ptrReg fo b"
| "execBuilder regString HelperString maxCap (CallLoad64 dst ptrReg fo) b =
     Block_Load64 regString HelperString dst ptrReg fo b"
| "execBuilder regString HelperString maxCap (CallLoad dst ptrReg fo sz) b =
     Block_Load regString HelperString dst ptrReg fo sz b"
| "execBuilder regString HelperString maxCap (CallStore8 dst ptrReg fo) b =
     Block_Store8 regString HelperString dst ptrReg fo b"
| "execBuilder regString HelperString maxCap (CallStore16 dst ptrReg fo) b =
     Block_Store16 regString HelperString dst ptrReg fo b"
| "execBuilder regString HelperString maxCap (CallStore32 dst ptrReg fo) b =
     Block_Store32 regString HelperString dst ptrReg fo b"
| "execBuilder regString HelperString maxCap (CallStore64 dst ptrReg fo) b =
     Block_Store64 regString HelperString dst ptrReg fo b"
| "execBuilder regString HelperString maxCap (CallCall helperID) b =
     Block_Call regString HelperString helperID b"
| "execBuilder regString HelperString maxCap (CallReserveInstructionCapacity n) b =
     ReserveInstructionCapacity maxCap n b"

fun runBuilder ::
  "(Reg \<Rightarrow> string) \<Rightarrow> string list \<Rightarrow> int \<Rightarrow> builderCall list \<Rightarrow> Block \<Rightarrow> panic + Block" where
  "runBuilder regString HelperString maxCap [] b = Inr b"
| "runBuilder regString HelperString maxCap (c # cs) b =
     (case execBuilder regString HelperString maxCap c b of
        Inl p \<Rightarrow> Inl p
      | Inr b' \<Rightarrow> runBuilder regString HelperString maxCap cs b')"

section \<open>Blocks and programs used as examples\<close>

text \<open>
  A Block holding \<open>n\<close> instructions, one fixup for the label L at instruction \<open>i\<close>, and
  L bound at index \<open>t\<close>.
\<close>

definition fixupBlock :: "nat \<Rightarrow> nat \<Rightarrow> nat \<Rightarrow> Block" where
  "fixupBlock t i n =
     (NewBlock False)\<lparr>insns := replicate n (MakeInsn JumpA 0 0 0 0),
                       fixUps := [(''L'', [FixUp i])],
                       labelToInsnIdx := [''L'' \<mapsto> t]\<rparr>"

text \<open>
  A Block with trampolines off, 40000 conditional jumps, and fixups pending for two
  labels, L at instruction 0 and M at instruction 5: binding either label at the end
  fails, with different errors.
\<close>

definition twoFixupBlock :: Block where
  "twoFixupBlock =
     (NewBlock False)\<lparr>insns := replicate 40000 (MakeInsn JumpEq64 R1 R2 0 0),
                       fixUps := [(''L'', [FixUp 0]), (''M'', [FixUp 5])],
                       inUseJumpTargets := {''L'', ''M''},
                       trampolinesEnabled := False\<rparr>"

text \<open>
  Instances of the two parameters of \<open>buildAnnotation\<close> for the examples: the names
  \<^verbatim>\<open>stringer\<close> gives the registers (R0 to R10, Reg(n) for another value) and a table
  of three helper names.
\<close>

definition exampleRegString :: "Reg \<Rightarrow> string" where
  "exampleRegString r =
     (if 0 \<le> sint r \<and> sint r \<le> 10 then ''R'' @ decimalInt (sint r)
      else ''Reg('' @ decimalInt (sint r) @ '')'')"

definition exampleHelperString :: "string list" where
  "exampleHelperString = [''unspec'', ''map_lookup_elem'', ''map_update_elem'']"

section \<open>Well-formed Blocks\<close>

text \<open>
  What every Block built through the methods satisfies: \<^verbatim>\<open>fixUps\<close> has one entry per
  key (it is a map), every instruction has its 8 bytes (\<^verbatim>\<open>[8]uint8\<close>), every fixup
  names an instruction that exists, and no instruction has fixups under two labels.
\<close>

definition wfBlock :: "Block \<Rightarrow> bool" where
  "wfBlock b \<longleftrightarrow>
     distinct (map fst (fixUps b)) \<and>
     (\<forall>n \<in> set (insns b). length (Instruction n) = 8) \<and>
     (\<forall>l fs. map_of (fixUps b) l = Some fs \<longrightarrow>
        (\<forall>f \<in> set fs. origInsnIdx f < length (insns b))) \<and>
     (\<forall>l l' fs fs'. map_of (fixUps b) l = Some fs \<and> map_of (fixUps b) l' = Some fs' \<and> l \<noteq> l'
        \<longrightarrow> set fs \<inter> set fs' = {})"

text \<open>
  How the deferred error of a Block may differ after a call: it is unchanged, or it was
  unset and now holds the wrapped error of a failed fixup resolution.
\<close>

definition latched :: "Block \<Rightarrow> Block \<Rightarrow> bool" where
  "latched b b' \<longleftrightarrow>
     deferredErr b' = deferredErr b \<or>
     (deferredErr b = None \<and>
      (\<exists>l n err. deferredErr b' = Some (FixUpsFailed l n err) \<and> isRangeError err))"

text \<open>A backward jump: the label is bound before the jump that refers to it.\<close>

definition backJumpProg :: "call list" where
  "backJumpProg =
     [CallLabelNextInsn ''L'', CallInstr Mov64 R0 R0 0 0 '''',
      CallInstrWithOffsetFixup JumpEq64 R1 R2 ''L'' 0, CallInstr Exit 0 0 0 0 '''']"

text \<open>
  The fixups pending for a label can all be resolved: the label is bound and every offset
  is in range and not -1.
\<close>

definition resolvable :: "Block \<Rightarrow> string \<Rightarrow> bool" where
  "resolvable b l \<longleftrightarrow>
     (\<forall>f \<in> set (fixUpsFor b l).
        \<exists>t. labelToInsnIdx b l = Some t \<and>
            int t - int (origInsnIdx f) - 1 \<noteq> - 1 \<and>
            - 32768 \<le> int t - int (origInsnIdx f) - 1 \<and>
            int t - int (origInsnIdx f) - 1 \<le> 32767)"

section \<open>The order of the fixup map\<close>

text \<open>
  \<^verbatim>\<open>fixUps\<close> is a Go map, and the order in which a \<^verbatim>\<open>range\<close> visits its keys is
  left open by the language and changes from one loop to the next. The list of the model
  has one order; two lists stand for the same map when they have the same entries, one
  per key, and two Blocks for the same Go state when they differ in that order only.
\<close>

definition sameEntries ::
  "(string \<times> fixUp list) list \<Rightarrow> (string \<times> fixUp list) list \<Rightarrow> bool" where
  "sameEntries xs ys \<longleftrightarrow> distinct (map fst xs) \<and> distinct (map fst ys) \<and> set xs = set ys"

definition reordered :: "Block \<Rightarrow> Block \<Rightarrow> bool" where
  "reordered b b' \<longleftrightarrow> b' = b\<lparr>fixUps := fixUps b'\<rparr> \<and> sameEntries (fixUps b) (fixUps b')"

text \<open>
  The Blocks that a call sequence can leave: before every call, and before what follows
  the last one (\<open>Assemble\<close>), the map may be met in any order. \<open>run\<close> is the run that
  never changes the order, \<open>runRev\<close> the one that reverses it every time.
\<close>

inductive runsTo :: "call list \<Rightarrow> Block \<Rightarrow> Block \<Rightarrow> bool" where
  runsTo_Nil: "reordered b b' \<Longrightarrow> runsTo [] b b'"
| runsTo_Cons: "reordered b b1 \<Longrightarrow> runsTo cs (exec c b1) b' \<Longrightarrow> runsTo (c # cs) b b'"

fun runRev :: "call list \<Rightarrow> Block \<Rightarrow> Block" where
  "runRev [] b = b\<lparr>fixUps := rev (fixUps b)\<rparr>"
| "runRev (c # cs) b = runRev cs (exec c (b\<lparr>fixUps := rev (fixUps b)\<rparr>))"

text \<open>
  Two forward jumps outstanding when the trampoline is written (stride 2), B registered
  before A; two backward jumps, resolved by \<open>Assemble\<close>; two jumps to labels never bound.
\<close>

definition twoLabelProg :: "call list" where
  "twoLabelProg =
     [CallSetTrampolineStride 2,
      CallInstrWithOffsetFixup JumpEq64 R1 R2 ''B'' 0,
      CallInstrWithOffsetFixup JumpEq64 R1 R3 ''A'' 0,
      CallInstr Mov64 R0 R0 0 0 '''',
      CallLabelNextInsn ''A'', CallLabelNextInsn ''B'',
      CallInstr Exit 0 0 0 0 '''']"

definition twoBackJumpProg :: "call list" where
  "twoBackJumpProg =
     [CallLabelNextInsn ''X'', CallInstr Mov64 R0 R0 0 0 '''',
      CallLabelNextInsn ''Y'', CallInstr Mov64 R0 R0 0 0 '''',
      CallInstrWithOffsetFixup JumpEq64 R1 R2 ''Y'' 0,
      CallInstrWithOffsetFixup JumpEq64 R1 R3 ''X'' 0,
      CallInstr Exit 0 0 0 0 '''']"

definition twoUnboundProg :: "call list" where
  "twoUnboundProg =
     [CallInstrWithOffsetFixup JumpEq64 R1 R2 ''A'' 0,
      CallInstrWithOffsetFixup JumpEq64 R1 R3 ''B'' 0]"

section \<open>Encoding and decoding one instruction\<close>

lemma Uint16_PutUint16: "i < length bs \<Longrightarrow> Suc i < length bs \<Longrightarrow> Uint16 i (PutUint16 i v bs) = v"
  unfolding Uint16_def PutUint16_def
  by (rule bit_word_eqI) (auto simp: bit_simps)

lemma bit_Uint32_PutUint32:
  assumes "i + 3 < length bs" and "n < 32"
  shows "bit (Uint32 i (PutUint32 i v bs)) n = bit v n"
proof -
  have "n < 8 \<or> (8 \<le> n \<and> n < 16) \<or> (16 \<le> n \<and> n < 24) \<or> (24 \<le> n \<and> n < 32)"
    using assms(2) by auto
  then show ?thesis
    using assms(1) unfolding Uint32_def PutUint32_def by (auto simp: bit_simps)
qed

lemma Uint32_PutUint32: "i + 3 < length bs \<Longrightarrow> Uint32 i (PutUint32 i v bs) = v"
  by (rule bit_word_eqI) (simp add: bit_Uint32_PutUint32)

lemma fifteen_mask: "(15 :: 'a::len word) = mask 4"
  by (simp add: mask_eq_exp_minus_1)

lemma reg_mask_iff: "(d :: Reg) AND 0xf = d \<longleftrightarrow> uint d < 16"
  using mask_eq_iff[of d 4] by (simp add: fifteen_mask)

text \<open>A register value read as Go's signed \<^verbatim>\<open>int\<close> lies in 0..15 iff its bits do.\<close>

lemma reg_range_iff: "uint (d :: Reg) < 16 \<longleftrightarrow> 0 \<le> sint d \<and> sint d \<le> 15"
proof
  assume a: "uint d < 16"
  have "sint d = signed_take_bit 63 (uint d)" by (simp add: sint_uint)
  also have "\<dots> = uint d"
  proof (rule signed_take_bit_int_eq_self)
    have "- (2 ^ 63) \<le> (0::int)" by simp
    also have "0 \<le> uint d" by simp
    finally show "- (2 ^ 63) \<le> uint d" .
    have "(16::int) < 2 ^ 63" by simp
    with a show "uint d < 2 ^ 63" by (rule less_trans)
  qed
  finally have "sint d = uint d" .
  with a show "0 \<le> sint d \<and> sint d \<le> 15" by simp
next
  assume a: "0 \<le> sint d \<and> sint d \<le> 15"
  have "uint d = take_bit 64 (sint d)" using uint_sint[of d] by simp
  also have "\<dots> = sint d"
  proof (rule take_bit_int_eq_self)
    show "0 \<le> sint d" using a by simp
    have "sint d < 16" using a by simp
    also have "(16::int) < 2 ^ 64" by simp
    finally show "sint d < 2 ^ 64" .
  qed
  finally show "uint d < 16" using a by auto
qed

lemma reg_le10: "(d::Reg) \<le> 10 \<Longrightarrow> uint d < 16"
  by (simp add: word_le_def)

lemma OpCode_MakeInsn [simp]: "OpCode (MakeInsn opcode dst src offset imm) = opcode"
  by (simp add: OpCode_def MakeInsn_def PutUint16_def PutUint32_def)

lemma Off_MakeInsn [simp]: "Off (MakeInsn opcode dst src offset imm) = offset"
proof -
  have "Uint16 2 (PutUint16 2 offset [opcode, ucast (push_bit 4 src OR dst), 0, 0, 0, 0, 0, 0])
          = offset"
    by (rule Uint16_PutUint16) simp_all
  then show ?thesis
    by (simp add: Off_def MakeInsn_def PutUint16_def PutUint32_def Uint16_def)
qed

lemma Imm_MakeInsn [simp]: "Imm (MakeInsn opcode dst src offset imm) = imm"
proof -
  have "Uint32 4 (PutUint32 4 imm
          (PutUint16 2 offset [opcode, ucast (push_bit 4 src OR dst), 0, 0, 0, 0, 0, 0])) = imm"
    by (rule Uint32_PutUint32) (simp add: PutUint16_def)
  then show ?thesis by (simp add: Imm_def MakeInsn_def)
qed

lemma Dst_MakeInsn: "Dst (MakeInsn opcode dst src offset imm) = dst AND 0xf"
  unfolding Dst_def MakeInsn_def PutUint16_def PutUint32_def
  apply (simp add: fifteen_mask)
  by (rule bit_word_eqI) (auto simp: bit_simps)

lemma Src_MakeInsn: "Src (MakeInsn opcode dst src offset imm) = (src OR drop_bit 4 dst) AND 0xf"
  unfolding Src_def MakeInsn_def PutUint16_def PutUint32_def
  apply (simp add: fifteen_mask)
  by (rule bit_word_eqI) (auto simp: bit_simps)

lemma Dst_range: "uint (Dst n) < 16"
proof -
  have "Dst n AND 0xf = Dst n"
    unfolding Dst_def by (simp add: fifteen_mask) (rule bit_word_eqI, auto simp: bit_simps)
  then show ?thesis by (simp only: reg_mask_iff)
qed

lemma Src_range: "uint (Src n) < 16"
proof -
  have "Src n AND 0xf = Src n"
    unfolding Src_def by (simp add: fifteen_mask) (rule bit_word_eqI, auto simp: bit_simps)
  then show ?thesis by (simp only: reg_mask_iff)
qed

lemma drop4_small: "uint (d::Reg) < 16 \<Longrightarrow> drop_bit 4 d = 0"
proof -
  assume "uint d < 16"
  then have "d AND mask 4 = d" using reg_mask_iff[of d] by (simp add: fifteen_mask)
  then have "drop_bit 4 d = drop_bit 4 (d AND mask 4)" by simp
  also have "\<dots> = 0" by (rule bit_word_eqI) (auto simp: bit_simps)
  finally show ?thesis .
qed

lemma Dst_MakeInsn_small: "uint dst < 16 \<Longrightarrow> Dst (MakeInsn opcode dst src offset imm) = dst"
  by (simp add: Dst_MakeInsn reg_mask_iff)

lemma Src_MakeInsn_small:
  "uint dst < 16 \<Longrightarrow> uint src < 16 \<Longrightarrow> Src (MakeInsn opcode dst src offset imm) = src"
  by (simp add: Src_MakeInsn drop4_small reg_mask_iff)

lemma byte1_MakeInsn:
  "Instruction (MakeInsn opcode dst src offset imm) ! 1 = push_bit 4 (ucast src) OR ucast dst"
  unfolding MakeInsn_def PutUint16_def PutUint32_def
  by (simp, rule bit_word_eqI) (auto simp: bit_simps)

lemma Instruction_MakeInsn:
  "Instruction (MakeInsn opcode dst src offset imm) =
     [opcode, push_bit 4 (ucast src) OR ucast dst,
      ucast offset, ucast (drop_bit 8 offset),
      ucast imm, ucast (drop_bit 8 imm), ucast (drop_bit 16 imm), ucast (drop_bit 24 imm)]"
  using byte1_MakeInsn[of opcode dst src offset imm]
  by (simp add: MakeInsn_def PutUint16_def PutUint32_def)

lemma accessors_Annotation [simp]:
  "OpCode (n\<lparr>Annotation := a\<rparr>) = OpCode n"
  "Dst (n\<lparr>Annotation := a\<rparr>) = Dst n"
  "Src (n\<lparr>Annotation := a\<rparr>) = Src n"
  "Off (n\<lparr>Annotation := a\<rparr>) = Off n"
  "Imm (n\<lparr>Annotation := a\<rparr>) = Imm n"
  "OpClass (n\<lparr>Annotation := a\<rparr>) = OpClass n"
  by (simp_all add: OpCode_def Dst_def Src_def Off_def Imm_def OpClass_def)


section \<open>Appending an instruction\<close>

lemma insns_addNoTrampoline:
  "insns (addInsnWithOffsetFixupNoTrampoline insn l b) =
     (if nextInsnReachable b
      then insns b @ [if l \<noteq> '''' \<and> policyDebugEnabled b
                      then insn\<lparr>Annotation := ''goto '' @ l\<rparr> else insn]
      else insns b)"
  by (simp add: addInsnWithOffsetFixupNoTrampoline_def Let_def)

lemma fold_delete_labels:
  "fold (\<lambda>l m. m(l := None)) ls m = (\<lambda>k. if k \<in> set ls then None else m k)"
  by (induction ls arbitrary: m) (auto simp: fun_eq_iff)

lemma nextInsnReachable_iff:
  "nextInsnReachable b \<longleftrightarrow>
     (length (insns b) = 0 \<or>
      (OpCode (last (insns b)) \<noteq> JumpA \<and> OpCode (last (insns b)) \<noteq> Exit) \<or>
      (\<exists>l \<in> set (labelsAt b (length (insns b))). l \<in> inUseJumpTargets b))"
  by (auto simp: nextInsnReachable_def Let_def last_conv_nth)

lemma addNoTrampoline_unreachable:
  "\<not> nextInsnReachable b \<Longrightarrow>
   addInsnWithOffsetFixupNoTrampoline insn l b =
     b\<lparr>labelToInsnIdx := (\<lambda>k. if k \<in> set (labelsAt b (length (insns b))) then None
                              else labelToInsnIdx b k),
       insnIdxToLabels := (insnIdxToLabels b)(length (insns b) := None)\<rparr>"
  by (simp add: addInsnWithOffsetFixupNoTrampoline_def fold_delete_labels)

lemma addNoTrampoline_reachable:
  "nextInsnReachable b \<Longrightarrow>
   addInsnWithOffsetFixupNoTrampoline insn l b =
     (if l = '''' then
        b\<lparr>insns := insns b @ [insn],
          NumJumps := (if OpClass insn = OpClassJump64 \<or> OpClass insn = OpClassJump32
                       then NumJumps b + 1 else NumJumps b)\<rparr>
      else
        b\<lparr>insns := insns b @ [if policyDebugEnabled b
                                then insn\<lparr>Annotation := ''goto '' @ l\<rparr> else insn],
          inUseJumpTargets := insert l (inUseJumpTargets b),
          fixUps := AList.update l (fixUpsFor b l @ [FixUp (length (insns b))]) (fixUps b),
          NumJumps := (if OpClass insn = OpClassJump64 \<or> OpClass insn = OpClassJump32
                       then NumJumps b + 1 else NumJumps b)\<rparr>)"
  by (auto simp: addInsnWithOffsetFixupNoTrampoline_def Let_def fixUpsFor_def)


section \<open>Claims about the encoding\<close>

text \<open>
  C2. Every instruction-named builder method builds its instruction with \<open>MakeInsn\<close>
  (through \<open>add\<close>, or through \<open>addWithOffsetFixup\<close> for the jumps). For registers
  R0 to R10, any opcode, 16-bit offset and 32-bit immediate, the accessors \<open>OpCode\<close>,
  \<open>Dst\<close>, \<open>Src\<close>, \<open>Off\<close>, \<open>Imm\<close> give back the tuple; byte 0 is the opcode, byte 1
  holds dst in the low and src in the high nibble, bytes 2-3 the offset and bytes 4-7 the
  immediate, little-endian. The instruction that \<open>add\<close> appends (when it is not dropped as
  unreachable) decodes to the tuple given; the one a jump method appends decodes to the
  opcode, registers and immediate given, its offset being left to the fixup.
\<close>

theorem named_builder_roundtrip:
  fixes dst src :: Reg
  assumes "dst \<le> 10" and "src \<le> 10"
  shows
    "(let n = MakeInsn opcode dst src offset imm in
        OpCode n = opcode \<and> Dst n = dst \<and> Src n = src \<and> Off n = offset \<and> Imm n = imm \<and>
        Instruction n =
          [opcode, push_bit 4 (ucast src) OR ucast dst,
           ucast offset, ucast (drop_bit 8 offset),
           ucast imm, ucast (drop_bit 8 imm), ucast (drop_bit 16 imm), ucast (drop_bit 24 imm)])
     \<and> (let b1 = maybeWriteTrampoline ((MakeInsn opcode dst src offset imm)\<lparr>Annotation := a\<rparr>) b;
            b2 = add opcode dst src offset imm a b
        in insns b2 = insns b1 \<or>
           (\<exists>n. insns b2 = insns b1 @ [n] \<and>
                OpCode n = opcode \<and> Dst n = dst \<and> Src n = src \<and> Off n = offset \<and> Imm n = imm))
     \<and> (let b1 = maybeWriteTrampoline (MakeInsn opcode dst src 0 imm) b;
            b2 = addWithOffsetFixup opcode dst src label imm b
        in insns b2 = insns b1 \<or>
           (\<exists>n. insns b2 = insns b1 @ [n] \<and>
                OpCode n = opcode \<and> Dst n = dst \<and> Src n = src \<and> Imm n = imm))"
proof -
  have d: "uint dst < 16" and s: "uint src < 16"
    using assms by (simp_all add: reg_le10)
  have acc: "OpCode (MakeInsn opcode dst src off imm) = opcode \<and>
      Dst (MakeInsn opcode dst src off imm) = dst \<and> Src (MakeInsn opcode dst src off imm) = src \<and>
      Off (MakeInsn opcode dst src off imm) = off \<and> Imm (MakeInsn opcode dst src off imm) = imm"
    for off
    using d s by (simp add: OpCode_MakeInsn Dst_MakeInsn_small Src_MakeInsn_small Off_MakeInsn Imm_MakeInsn)
  have 1: "let n = MakeInsn opcode dst src offset imm in
        OpCode n = opcode \<and> Dst n = dst \<and> Src n = src \<and> Off n = offset \<and> Imm n = imm \<and>
        Instruction n =
          [opcode, push_bit 4 (ucast src) OR ucast dst,
           ucast offset, ucast (drop_bit 8 offset),
           ucast imm, ucast (drop_bit 8 imm), ucast (drop_bit 16 imm), ucast (drop_bit 24 imm)]"
    using acc[of offset] by (simp add: Let_def Instruction_MakeInsn)
  have 2: "let b1 = maybeWriteTrampoline ((MakeInsn opcode dst src offset imm)\<lparr>Annotation := a\<rparr>) b;
            b2 = add opcode dst src offset imm a b
        in insns b2 = insns b1 \<or>
           (\<exists>n. insns b2 = insns b1 @ [n] \<and>
                OpCode n = opcode \<and> Dst n = dst \<and> Src n = src \<and> Off n = offset \<and> Imm n = imm)"
    using acc[of offset]
    by (simp add: Let_def add_def addInsn_def addInsnWithOffsetFixup_def insns_addNoTrampoline)
  have 3: "let b1 = maybeWriteTrampoline (MakeInsn opcode dst src 0 imm) b;
            b2 = addWithOffsetFixup opcode dst src label imm b
        in insns b2 = insns b1 \<or>
           (\<exists>n. insns b2 = insns b1 @ [n] \<and>
                OpCode n = opcode \<and> Dst n = dst \<and> Src n = src \<and> Imm n = imm)"
    using acc[of 0]
    by (simp add: Let_def addWithOffsetFixup_def addInsnWithOffsetFixup_def insns_addNoTrampoline)
  from 1 2 3 show ?thesis by blast
qed

text \<open>The theorem at \<open>Mov64\<close>, R1, R2, offset -8, immediate 7.\<close>

theorem named_builder_roundtrip_witness:
  "R1 \<le> 10 \<and> R2 \<le> 10 \<and>
   OpCode (MakeInsn Mov64 R1 R2 (- 8) 7) = Mov64 \<and> Dst (MakeInsn Mov64 R1 R2 (- 8) 7) = R1 \<and>
   Src (MakeInsn Mov64 R1 R2 (- 8) 7) = R2 \<and> Off (MakeInsn Mov64 R1 R2 (- 8) 7) = - 8 \<and>
   Imm (MakeInsn Mov64 R1 R2 (- 8) 7) = 7 \<and>
   Instruction (MakeInsn Mov64 R1 R2 (- 8) 7) = [0xbf, 0x21, 0xf8, 0xff, 7, 0, 0, 0]"
proof -
  have h: "R1 \<le> 10" "R2 \<le> 10" by (simp_all add: R1_def R2_def)
  have bytes: "Instruction (MakeInsn Mov64 R1 R2 (- 8) 7) = [0xbf, 0x21, 0xf8, 0xff, 7, 0, 0, 0]"
    by (simp add: MakeInsn_def PutUint16_def PutUint32_def R1_def R2_def Mov64_def
        OpClassALU64_def ALUSrcReg_def ALUOpMov_def)
  show ?thesis
    using h bytes named_builder_roundtrip[OF h, of Mov64 "- 8" 7 "[]" "NewBlock False" "[]"]
    by (simp add: Let_def)
qed

text \<open>
  C9. \<open>SetTrampolineStride s\<close> sets the stride to \<open>s\<close> when \<open>0 < s < 16384\<close>, and
  otherwise returns the Block as it was: the stride and every other field are unchanged.
\<close>

theorem SetTrampolineStride_effect:
  "SetTrampolineStride s b = (if 0 < s \<and> s < 16384 then b\<lparr>trampolineStride := s\<rparr> else b)"
  by (simp add: SetTrampolineStride_def)

text \<open>
  C10. \<open>Dst\<close> and \<open>Src\<close> of any instruction lie in 0..15. After \<open>MakeInsn\<close> both
  register fields decode to the arguments exactly when both arguments lie in 0..15; the
  destination alone round-trips exactly when it lies in 0..15, and a source outside 0..15
  never round-trips.
\<close>

theorem register_fields_roundtrip:
  fixes dst src :: Reg
  shows
    "0 \<le> sint (Dst n) \<and> sint (Dst n) \<le> 15 \<and> 0 \<le> sint (Src n) \<and> sint (Src n) \<le> 15 \<and>
     ((Dst (MakeInsn opcode dst src offset imm) = dst \<and>
       Src (MakeInsn opcode dst src offset imm) = src)
      \<longleftrightarrow> (0 \<le> sint dst \<and> sint dst \<le> 15 \<and> 0 \<le> sint src \<and> sint src \<le> 15)) \<and>
     (Dst (MakeInsn opcode dst src offset imm) = dst \<longleftrightarrow> (0 \<le> sint dst \<and> sint dst \<le> 15)) \<and>
     (Src (MakeInsn opcode dst src offset imm) = src \<longrightarrow> (0 \<le> sint src \<and> sint src \<le> 15))"
proof -
  let ?m = "MakeInsn opcode dst src offset imm"
  have r: "0 \<le> sint (Dst n) \<and> sint (Dst n) \<le> 15 \<and> 0 \<le> sint (Src n) \<and> sint (Src n) \<le> 15"
    using Dst_range[of n] Src_range[of n] by (simp only: reg_range_iff)
  have d: "Dst ?m = dst \<longleftrightarrow> (0 \<le> sint dst \<and> sint dst \<le> 15)"
  proof
    assume "Dst ?m = dst"
    then show "0 \<le> sint dst \<and> sint dst \<le> 15"
      using Dst_range[of ?m] by (simp only: reg_range_iff)
  next
    assume "0 \<le> sint dst \<and> sint dst \<le> 15"
    then have "uint dst < 16" by (simp only: reg_range_iff)
    then show "Dst ?m = dst" by (rule Dst_MakeInsn_small)
  qed
  have s: "Src ?m = src \<longrightarrow> (0 \<le> sint src \<and> sint src \<le> 15)"
  proof
    assume "Src ?m = src"
    then show "0 \<le> sint src \<and> sint src \<le> 15"
      using Src_range[of ?m] by (simp only: reg_range_iff)
  qed
  have b: "(Dst ?m = dst \<and> Src ?m = src)
      \<longleftrightarrow> (0 \<le> sint dst \<and> sint dst \<le> 15 \<and> 0 \<le> sint src \<and> sint src \<le> 15)"
  proof
    assume "Dst ?m = dst \<and> Src ?m = src"
    with d s show "0 \<le> sint dst \<and> sint dst \<le> 15 \<and> 0 \<le> sint src \<and> sint src \<le> 15" by blast
  next
    assume a: "0 \<le> sint dst \<and> sint dst \<le> 15 \<and> 0 \<le> sint src \<and> sint src \<le> 15"
    then have "uint dst < 16" "uint src < 16" by (simp_all only: reg_range_iff)
    then show "Dst ?m = dst \<and> Src ?m = src"
      by (simp add: Dst_MakeInsn_small Src_MakeInsn_small)
  qed
  from r d s b show ?thesis by blast
qed

text \<open>
  The theorem at destination 16: it decodes as destination 0 and source 1. A source of 16
  decodes as 0, and a destination of -1 as 15.
\<close>

theorem register_fields_roundtrip_witness:
  "Dst (MakeInsn Mov64 16 0 0 0) = 0 \<and> Src (MakeInsn Mov64 16 0 0 0) = 1 \<and>
   Src (MakeInsn Mov64 3 16 0 0) = 0 \<and>
   Dst (MakeInsn Mov64 3 5 0 0) = 3 \<and> Src (MakeInsn Mov64 3 5 0 0) = 5 \<and>
   sint (Dst (MakeInsn Mov64 (- 1) 0 0 0)) = 15"
  using register_fields_roundtrip[of "MakeInsn Mov64 16 0 0 0" Mov64 16 0 0 0]
  by (simp add: Dst_MakeInsn Src_MakeInsn)

section \<open>The reachability filter\<close>

text \<open>
  C5. Every emission goes through \<open>addInsnWithOffsetFixupNoTrampoline\<close>, on the Block
  left by the trampoline check. The instruction is appended iff it is reachable: the
  program is empty, or the last instruction is neither \<open>JumpA\<close> nor \<open>Exit\<close>, or a label
  recorded at the current position is an in-use jump target. When it is unreachable the
  instructions stay as they are, every label recorded at the position is removed from
  \<open>labelToInsnIdx\<close> (the other labels stay) and the position from \<open>insnIdxToLabels\<close>,
  and nothing else changes. In [Exit, label X, Mov64(R0,R0)] the \<open>Mov64\<close> is absent
  from the output and X is dropped.
\<close>

theorem reachability_filter:
  "(let n = length (insns b);
        reachable =
          (n = 0 \<or>
           (OpCode (last (insns b)) \<noteq> JumpA \<and> OpCode (last (insns b)) \<noteq> Exit) \<or>
           (\<exists>l \<in> set (labelsAt b n). l \<in> inUseJumpTargets b));
        b' = addInsnWithOffsetFixupNoTrampoline insn target b
    in nextInsnReachable b = reachable \<and>
       (reachable \<longrightarrow>
          (\<exists>n'. insns b' = insns b @ [n'] \<and> Instruction n' = Instruction insn) \<and>
          labelToInsnIdx b' = labelToInsnIdx b \<and> insnIdxToLabels b' = insnIdxToLabels b) \<and>
       (\<not> reachable \<longrightarrow>
          insns b' = insns b \<and>
          (\<forall>l \<in> set (labelsAt b n). labelToInsnIdx b' l = None) \<and>
          (\<forall>l. l \<notin> set (labelsAt b n) \<longrightarrow> labelToInsnIdx b' l = labelToInsnIdx b l) \<and>
          insnIdxToLabels b' = (insnIdxToLabels b)(n := None) \<and>
          fixUps b' = fixUps b \<and> inUseJumpTargets b' = inUseJumpTargets b \<and>
          deferredErr b' = deferredErr b \<and> NumJumps b' = NumJumps b))
   \<and> addInsnWithOffsetFixup insn target b =
       addInsnWithOffsetFixupNoTrampoline insn target (maybeWriteTrampoline insn b)
   \<and> insns (run [CallInstr Exit 0 0 0 0 '''', CallLabelNextInsn ''X'',
                 CallInstr Mov64 R0 R0 0 0 ''''] (NewBlock dbg)) = [MakeInsn Exit 0 0 0 0]
   \<and> labelToInsnIdx (run [CallInstr Exit 0 0 0 0 '''', CallLabelNextInsn ''X'',
                 CallInstr Mov64 R0 R0 0 0 ''''] (NewBlock dbg)) ''X'' = None
   \<and> insnIdxToLabels (run [CallInstr Exit 0 0 0 0 '''', CallLabelNextInsn ''X'',
                 CallInstr Mov64 R0 R0 0 0 ''''] (NewBlock dbg)) 1 = None
   \<and> Assemble (run [CallInstr Exit 0 0 0 0 '''', CallLabelNextInsn ''X'',
                 CallInstr Mov64 R0 R0 0 0 ''''] (NewBlock dbg)) = Inr [MakeInsn Exit 0 0 0 0]"
proof -
  let ?r = "(length (insns b) = 0 \<or>
           (OpCode (last (insns b)) \<noteq> JumpA \<and> OpCode (last (insns b)) \<noteq> Exit) \<or>
           (\<exists>l \<in> set (labelsAt b (length (insns b))). l \<in> inUseJumpTargets b))"
  let ?b' = "addInsnWithOffsetFixupNoTrampoline insn target b"
  have r: "nextInsnReachable b = ?r" by (rule nextInsnReachable_iff)
  have yes: "?r \<longrightarrow>
          (\<exists>n'. insns ?b' = insns b @ [n'] \<and> Instruction n' = Instruction insn) \<and>
          labelToInsnIdx ?b' = labelToInsnIdx b \<and> insnIdxToLabels ?b' = insnIdxToLabels b"
    unfolding r[symmetric] by (auto simp: addNoTrampoline_reachable)
  have no: "\<not> ?r \<longrightarrow>
          insns ?b' = insns b \<and>
          (\<forall>l \<in> set (labelsAt b (length (insns b))). labelToInsnIdx ?b' l = None) \<and>
          (\<forall>l. l \<notin> set (labelsAt b (length (insns b))) \<longrightarrow> labelToInsnIdx ?b' l = labelToInsnIdx b l) \<and>
          insnIdxToLabels ?b' = (insnIdxToLabels b)(length (insns b) := None) \<and>
          fixUps ?b' = fixUps b \<and> inUseJumpTargets ?b' = inUseJumpTargets b \<and>
          deferredErr ?b' = deferredErr b \<and> NumJumps ?b' = NumJumps b"
    unfolding r[symmetric] by (auto simp: addNoTrampoline_unreachable)
  let ?p = "run [CallInstr Exit 0 0 0 0 '''', CallLabelNextInsn ''X'',
                 CallInstr Mov64 R0 R0 0 0 ''''] (NewBlock dbg)"
  have ex: "insns (?p) = [MakeInsn Exit 0 0 0 0] \<and> labelToInsnIdx ?p ''X'' = None \<and>
      insnIdxToLabels ?p 1 = None \<and> Assemble ?p = Inr [MakeInsn Exit 0 0 0 0]"
  proof -
    let ?q = "\<lambda>d. run [CallInstr Exit 0 0 0 0 '''', CallLabelNextInsn ''X'',
                 CallInstr Mov64 R0 R0 0 0 ''''] (NewBlock d)"
    have T: "insns (?q True) = [MakeInsn Exit 0 0 0 0] \<and> labelToInsnIdx (?q True) ''X'' = None \<and>
      insnIdxToLabels (?q True) 1 = None \<and> Assemble (?q True) = Inr [MakeInsn Exit 0 0 0 0]"
      by code_simp
    have F: "insns (?q False) = [MakeInsn Exit 0 0 0 0] \<and> labelToInsnIdx (?q False) ''X'' = None \<and>
      insnIdxToLabels (?q False) 1 = None \<and> Assemble (?q False) = Inr [MakeInsn Exit 0 0 0 0]"
      by code_simp
    show ?thesis using T F by (cases dbg) simp_all
  qed
  have df: "addInsnWithOffsetFixup insn target b =
       addInsnWithOffsetFixupNoTrampoline insn target (maybeWriteTrampoline insn b)"
    by (simp add: addInsnWithOffsetFixup_def)
  show ?thesis
    unfolding Let_def using r yes no ex df by blast
qed

text \<open>
  The theorem after [Exit, label X], where the next instruction is dropped with X, and
  after [JumpEq64 to L, Exit, label L], where it is appended since L is in use.
\<close>

theorem reachability_filter_witness:
  "length (insns (LabelNextInsn ''X'' (Block_Exit (NewBlock False)))) = 1 \<and>
   OpCode (last (insns (LabelNextInsn ''X'' (Block_Exit (NewBlock False))))) = Exit \<and>
   labelsAt (LabelNextInsn ''X'' (Block_Exit (NewBlock False))) 1 = [''X''] \<and>
   ''X'' \<notin> inUseJumpTargets (LabelNextInsn ''X'' (Block_Exit (NewBlock False))) \<and>
   insns (addInsnWithOffsetFixupNoTrampoline (MakeInsn Mov64 R0 R0 0 0) ''''
            (LabelNextInsn ''X'' (Block_Exit (NewBlock False)))) = [MakeInsn Exit 0 0 0 0] \<and>
   labelToInsnIdx (addInsnWithOffsetFixupNoTrampoline (MakeInsn Mov64 R0 R0 0 0) ''''
            (LabelNextInsn ''X'' (Block_Exit (NewBlock False)))) ''X'' = None \<and>
   length (insns (LabelNextInsn ''L'' (Block_Exit (Block_JumpEq64 R1 R2 ''L'' (NewBlock False))))) = 2 \<and>
   OpCode (last (insns (LabelNextInsn ''L'' (Block_Exit (Block_JumpEq64 R1 R2 ''L'' (NewBlock False))))))
     = Exit \<and>
   labelsAt (LabelNextInsn ''L'' (Block_Exit (Block_JumpEq64 R1 R2 ''L'' (NewBlock False)))) 2 = [''L''] \<and>
   ''L'' \<in> inUseJumpTargets
             (LabelNextInsn ''L'' (Block_Exit (Block_JumpEq64 R1 R2 ''L'' (NewBlock False)))) \<and>
   length (insns (addInsnWithOffsetFixupNoTrampoline (MakeInsn Mov64 R0 R0 0 0) ''''
            (LabelNextInsn ''L'' (Block_Exit (Block_JumpEq64 R1 R2 ''L'' (NewBlock False)))))) = 3 \<and>
   labelToInsnIdx (addInsnWithOffsetFixupNoTrampoline (MakeInsn Mov64 R0 R0 0 0) ''''
            (LabelNextInsn ''L'' (Block_Exit (Block_JumpEq64 R1 R2 ''L'' (NewBlock False))))) ''L''
     = Some 2"
proof -
  let ?b = "LabelNextInsn ''L'' (Block_Exit (Block_JumpEq64 R1 R2 ''L'' (NewBlock False)))"
  let ?c = "LabelNextInsn ''X'' (Block_Exit (NewBlock False))"
  have e: "length (insns ?b) = 2 \<and> OpCode (last (insns ?b)) = Exit \<and>
      labelsAt ?b 2 = [''L''] \<and> ''L'' \<in> inUseJumpTargets ?b \<and> labelToInsnIdx ?b ''L'' = Some 2"
    by code_simp
  have f: "length (insns ?c) = 1 \<and> OpCode (last (insns ?c)) = Exit \<and>
      labelsAt ?c 1 = [''X''] \<and> ''X'' \<notin>  inUseJumpTargets ?c \<and> insns ?c = [MakeInsn Exit 0 0 0 0]"
    by code_simp
  have x: "Exit = JumpA \<longleftrightarrow> False" by (simp add: Exit_def JumpA_def OpClassJump64_def ALUSrcImm_def JumpOpExit_def JumpOpA_def)
  let ?m = "MakeInsn Mov64 R0 R0 0 0"
  have nr: "\<not> (length (insns ?c) = 0 \<or>
           (OpCode (last (insns ?c)) \<noteq> JumpA \<and> OpCode (last (insns ?c)) \<noteq> Exit) \<or>
           (\<exists>l \<in> set (labelsAt ?c (length (insns ?c))). l \<in> inUseJumpTargets ?c))"
    using f by (simp add: OpCode_MakeInsn)
  have c1: "insns (addInsnWithOffsetFixupNoTrampoline ?m '''' ?c) = insns ?c \<and>
     (\<forall>l \<in> set (labelsAt ?c (length (insns ?c))).
        labelToInsnIdx (addInsnWithOffsetFixupNoTrampoline ?m '''' ?c) l = None)"
    using reachability_filter[of ?c ?m "''''" False] nr unfolding Let_def by blast
  have r: "(length (insns ?b) = 0 \<or>
           (OpCode (last (insns ?b)) \<noteq> JumpA \<and> OpCode (last (insns ?b)) \<noteq> Exit) \<or>
           (\<exists>l \<in> set (labelsAt ?b (length (insns ?b))). l \<in> inUseJumpTargets ?b))"
    using e by simp
  have b1: "(\<exists>n'. insns (addInsnWithOffsetFixupNoTrampoline ?m '''' ?b) = insns ?b @ [n']) \<and>
     labelToInsnIdx (addInsnWithOffsetFixupNoTrampoline ?m '''' ?b) = labelToInsnIdx ?b"
    using reachability_filter[of ?b ?m "''''" False] r unfolding Let_def by blast
  then have b2: "length (insns (addInsnWithOffsetFixupNoTrampoline ?m '''' ?b)) = 3"
    using e by auto
  show ?thesis
    using e f c1 b1 b2 by simp
qed


section \<open>What the builder methods leave unchanged\<close>

text \<open>
  Fixups only rewrite bytes 2-3 of instructions already emitted, and every other method
  only appends: whatever an accessor other than \<open>Off\<close> reads of an emitted instruction
  stays as it is, up to and through \<open>Assemble\<close>.
\<close>

lemma maybeWriteTrampoline_Pt2:
  "OpCode n = LoadImm64Pt2 \<Longrightarrow> maybeWriteTrampoline n b = b"
  by (simp add: maybeWriteTrampoline_def)

lemma map_patch:
  assumes "\<And>n v. f (putOffset n v) = f n"
  shows "map f (xs[i := putOffset (xs ! i) v]) = map f xs"
proof (cases "i < length xs")
  case True
  then show ?thesis by (simp add: map_update assms list_update_same_conv)
next
  case False
  then have "length xs \<le> i" by simp
  then show ?thesis by (simp only: list_update_beyond)
qed

lemma applyFixUps_loop_frame_ex:
  "\<exists>xs. fst (applyFixUps_loop l fs b) = b\<lparr>insns := xs\<rparr>"
proof (induction fs arbitrary: b)
  case Nil
  have "\<exists>xs. b = b\<lparr>insns := xs\<rparr>" by (rule exI[of _ "insns b"]) simp
  then show ?case by simp
next
  case (Cons f fs)
  show ?case
  proof (cases "labelToInsnIdx b l")
    case None
    have "\<exists>xs. b = b\<lparr>insns := xs\<rparr>" by (rule exI[of _ "insns b"]) simp
    then show ?thesis using None by simp
  next
    case (Some t)
    let ?off = "int t - int (origInsnIdx f) - 1"
    let ?b1 = "b\<lparr>insns := (insns b)[origInsnIdx f :=
                      putOffset (insns b ! origInsnIdx f) (word_of_int ?off)]\<rparr>"
    have triv: "\<exists>xs. b = b\<lparr>insns := xs\<rparr>" by (rule exI[of _ "insns b"]) simp
    obtain xs where "fst (applyFixUps_loop l fs ?b1) = ?b1\<lparr>insns := xs\<rparr>"
      using Cons.IH[of ?b1] by blast
    then have "fst (applyFixUps_loop l fs ?b1) = b\<lparr>insns := xs\<rparr>" by simp
    then have "\<exists>xs. fst (applyFixUps_loop l fs ?b1) = b\<lparr>insns := xs\<rparr>" by blast
    then show ?thesis using Some triv by (simp add: Let_def)
  qed
qed

lemma applyFixUps_loop_frame:
  "fst (applyFixUps_loop l fs b) = b\<lparr>insns := insns (fst (applyFixUps_loop l fs b))\<rparr>"
proof -
  obtain xs where x: "fst (applyFixUps_loop l fs b) = b\<lparr>insns := xs\<rparr>"
    using applyFixUps_loop_frame_ex by blast
  then have "insns (fst (applyFixUps_loop l fs b)) = xs" by simp
  with x show ?thesis by simp
qed

lemma applyFixUps_loop_length:
  "length (insns (fst (applyFixUps_loop l fs b))) = length (insns b)"
  by (induction fs arbitrary: b) (auto simp: Let_def split: option.splits)

lemma applyFixUps_loop_map:
  assumes "\<And>n v. f (putOffset n v) = f n"
  shows "map f (insns (fst (applyFixUps_loop l fs b))) = map f (insns b)"
  by (induction fs arbitrary: b) (auto simp: Let_def map_patch[OF assms] split: option.splits)

lemma applyFixUps_insns:
  "insns (fst (applyFixUps l b)) = insns (fst (applyFixUps_loop l (fixUpsFor b l) b))"
  by (simp add: applyFixUps_def split: prod.splits option.splits)

lemma applyFixUps_frame:
  "fst (applyFixUps l b) =
     b\<lparr>insns := insns (fst (applyFixUps l b)), fixUps := fixUps (fst (applyFixUps l b))\<rparr>"
proof -
  obtain b' e where r: "applyFixUps_loop l (fixUpsFor b l) b = (b', e)" by (cases "applyFixUps_loop l (fixUpsFor b l) b")
  have "b' = b\<lparr>insns := insns b'\<rparr>" using applyFixUps_loop_frame[of l "fixUpsFor b l" b] r by simp
  then show ?thesis
    using r by (cases e) (auto simp: applyFixUps_def intro: Block.equality)
qed

lemma applyFixUps_map:
  assumes "\<And>n v. f (putOffset n v) = f n"
  shows "map f (insns (fst (applyFixUps l b))) = map f (insns b)"
  by (simp add: applyFixUps_insns applyFixUps_loop_map[OF assms])

lemma LabelNextInsn_insns:
  "insns (LabelNextInsn l b) =
     insns (fst (applyFixUps l
       (b\<lparr>labelToInsnIdx := (labelToInsnIdx b)(l \<mapsto> length (insns b)),
          insnIdxToLabels := (insnIdxToLabels b)(length (insns b) \<mapsto> labelsAt b (length (insns b)) @ [l])\<rparr>)))"
  by (simp add: LabelNextInsn_def Let_def labelsAt_def split: prod.splits option.splits)

lemma LabelNextInsn_map:
  assumes "\<And>n v. f (putOffset n v) = f n"
  shows "map f (insns (LabelNextInsn l b)) = map f (insns b)"
  by (simp add: LabelNextInsn_insns applyFixUps_map[OF assms])

lemma addNoTrampoline_grows:
  "\<exists>ys. map f (insns (addInsnWithOffsetFixupNoTrampoline insn l b)) = map f (insns b) @ ys"
  by (simp add: insns_addNoTrampoline)

lemma relay_fold_grows:
  assumes "\<And>n v. f (putOffset n v) = f n"
  shows "\<exists>ys. map f (insns (fold (\<lambda>label b. JumpNoTrampoline label (LabelNextInsn label b)) ls b))
            = map f (insns b) @ ys"
proof (induction ls arbitrary: b)
  case Nil
  then show ?case by simp
next
  case (Cons l ls)
  let ?b1 = "JumpNoTrampoline l (LabelNextInsn l b)"
  obtain ys where 1: "map f (insns ?b1) = map f (insns b) @ ys"
    using addNoTrampoline_grows[of f "MakeInsn JumpA 0 0 0 0" l "LabelNextInsn l b"]
    by (auto simp: JumpNoTrampoline_def LabelNextInsn_map[OF assms])
  obtain zs where 2: "map f (insns (fold (\<lambda>label b. JumpNoTrampoline label (LabelNextInsn label b)) ls ?b1))
            = map f (insns ?b1) @ zs"
    using Cons.IH[of ?b1] by blast
  show ?case using 1 2 by simp
qed

lemma writeTrampoline_grows:
  assumes "\<And>n v. f (putOffset n v) = f n"
  shows "\<exists>ys. map f (insns (writeTrampoline b)) = map f (insns b) @ ys"
proof (cases "length (fixUps b) = 0")
  case True
  then show ?thesis by (simp add: writeTrampoline_def)
next
  case False
  let ?b2 = "b\<lparr>lastTrampolineAddr := length (insns b), trampolineIdx := trampolineIdx b + 1\<rparr>"
  let ?e = "''skip-trampoline-'' @ decimal (trampolineIdx b)"
  let ?b3 = "JumpNoTrampoline ?e ?b2"
  let ?b4 = "fold (\<lambda>label b. JumpNoTrampoline label (LabelNextInsn label b)) (sort (map fst (fixUps b))) ?b3"
  have w: "writeTrampoline b = LabelNextInsn ?e ?b4"
    using False by (simp add: writeTrampoline_def Let_def)
  obtain ys where 1: "map f (insns ?b3) = map f (insns b) @ ys"
    using addNoTrampoline_grows[of f "MakeInsn JumpA 0 0 0 0" ?e ?b2]
    by (auto simp: JumpNoTrampoline_def)
  obtain zs where 2: "map f (insns ?b4) = map f (insns ?b3) @ zs"
    using relay_fold_grows[OF assms, of "sort (map fst (fixUps b))" ?b3] by blast
  show ?thesis using 1 2 by (simp add: w LabelNextInsn_map[OF assms])
qed

lemma maybeWriteTrampoline_grows:
  assumes "\<And>n v. f (putOffset n v) = f n"
  shows "\<exists>ys. map f (insns (maybeWriteTrampoline n b)) = map f (insns b) @ ys"
  using writeTrampoline_grows[OF assms, of b] by (simp add: maybeWriteTrampoline_def)

lemma addInsnWithOffsetFixup_grows:
  assumes "\<And>n v. f (putOffset n v) = f n"
  shows "\<exists>ys. map f (insns (addInsnWithOffsetFixup n l b)) = map f (insns b) @ ys"
proof -
  obtain ys where 1: "map f (insns (maybeWriteTrampoline n b)) = map f (insns b) @ ys"
    using maybeWriteTrampoline_grows[OF assms] by blast
  obtain zs where 2: "map f (insns (addInsnWithOffsetFixup n l b)) = map f (insns (maybeWriteTrampoline n b)) @ zs"
    unfolding addInsnWithOffsetFixup_def using addNoTrampoline_grows by blast
  show ?thesis using 1 2 by simp
qed

lemma exec_grows:
  assumes "\<And>n v. f (putOffset n v) = f n"
  shows "\<exists>ys. map f (insns (exec c b)) = map f (insns b) @ ys"
proof (cases c)
  case (CallInstr opcode dst src offset imm a)
  then show ?thesis
    using addInsnWithOffsetFixup_grows[OF assms] by (simp add: Instr_def add_def addInsn_def)
next
  case (CallInstrWithOffsetFixup opcode dst src l imm)
  then show ?thesis
    using addInsnWithOffsetFixup_grows[OF assms] by (simp add: InstrWithOffsetFixup_def addWithOffsetFixup_def)
next
  case (CallJumpNoTrampoline l)
  then show ?thesis using addNoTrampoline_grows[of f] by (simp add: JumpNoTrampoline_def)
next
  case (CallLabelNextInsn l)
  then show ?thesis by (simp add: LabelNextInsn_map[OF assms])
next
  case (CallAddComment c)
  then show ?thesis by (simp add: AddComment_def)
next
  case (CallSetTrampolinesEnabled en)
  then show ?thesis by (simp add: SetTrampolinesEnabled_def)
next
  case (CallSetTrampolineStride s)
  then show ?thesis by (simp add: SetTrampolineStride_def)
qed

lemma run_grows:
  assumes "\<And>n v. f (putOffset n v) = f n"
  shows "\<exists>ys. map f (insns (run cs b)) = map f (insns b) @ ys"
proof (induction cs arbitrary: b)
  case Nil
  then show ?case by simp
next
  case (Cons c cs)
  obtain ys where 1: "map f (insns (exec c b)) = map f (insns b) @ ys"
    using exec_grows[OF assms] by blast
  obtain zs where 2: "map f (insns (run cs (exec c b))) = map f (insns (exec c b)) @ zs"
    using Cons.IH by blast
  show ?case using 1 2 by simp
qed

lemma Assemble_loop_map:
  assumes "\<And>n v. f (putOffset n v) = f n"
  shows "map f (insns (fst (Assemble_loop ls b))) = map f (insns b)"
proof (induction ls arbitrary: b)
  case Nil
  then show ?case by simp
next
  case (Cons l ls)
  obtain b' e where r: "applyFixUps l b = (b', e)" by (cases "applyFixUps l b")
  have m: "map f (insns b') = map f (insns b)"
    using applyFixUps_map[OF assms, of l b] r by simp
  show ?case
  proof (cases e)
    case None
    then show ?thesis using r m Cons.IH[of b'] by simp
  next
    case (Some err)
    then show ?thesis using r m by simp
  qed
qed

lemma addDebugInfo_map:
  assumes "\<And>n x. f (n\<lparr>Labels := x\<rparr>) = f n" and "\<And>n x. f (n\<lparr>Comments := x\<rparr>) = f n"
  shows "map f (addDebugInfo b) = map f (insns b)"
  by (rule nth_equalityI) (auto simp: addDebugInfo_def Let_def assms split: option.splits)

lemma Assemble_map:
  assumes "\<And>n v. f (putOffset n v) = f n"
    and "\<And>n x. f (n\<lparr>Labels := x\<rparr>) = f n" and "\<And>n x. f (n\<lparr>Comments := x\<rparr>) = f n"
    and "Assemble b = Inr prog"
  shows "map f prog = map f (insns b)"
proof -
  obtain b' e where r: "Assemble_loop (map fst (fixUps b)) b = (b', e)"
    by (cases "Assemble_loop (map fst (fixUps b)) b")
  have m: "map f (insns b') = map f (insns b)"
    using Assemble_loop_map[OF assms(1), of "map fst (fixUps b)" b] r by simp
  have "prog = (if policyDebugEnabled b' then addDebugInfo b' else insns b')"
    using assms(4) r by (auto simp: Assemble_def split: option.splits)
  then show ?thesis
    using m addDebugInfo_map[of f b', OF assms(2,3)] by simp
qed

lemma OpCode_putOffset [simp]: "OpCode (putOffset n v) = OpCode n"
  by (simp add: OpCode_def putOffset_def PutUint16_def)

lemma Imm_putOffset [simp]: "Imm (putOffset n v) = Imm n"
  by (simp add: Imm_def putOffset_def PutUint16_def Uint32_def)

lemma Dst_putOffset [simp]: "Dst (putOffset n v) = Dst n"
  by (simp add: Dst_def putOffset_def PutUint16_def)

lemma Src_putOffset [simp]: "Src (putOffset n v) = Src n"
  by (simp add: Src_def putOffset_def PutUint16_def)

lemma accessors_Labels [simp]:
  "OpCode (n\<lparr>Labels := x\<rparr>) = OpCode n"
  "Dst (n\<lparr>Labels := x\<rparr>) = Dst n"
  "Src (n\<lparr>Labels := x\<rparr>) = Src n"
  "Off (n\<lparr>Labels := x\<rparr>) = Off n"
  "Imm (n\<lparr>Labels := x\<rparr>) = Imm n"
  by (simp_all add: OpCode_def Dst_def Src_def Off_def Imm_def)

lemma accessors_Comments [simp]:
  "OpCode (n\<lparr>Comments := x\<rparr>) = OpCode n"
  "Dst (n\<lparr>Comments := x\<rparr>) = Dst n"
  "Src (n\<lparr>Comments := x\<rparr>) = Src n"
  "Off (n\<lparr>Comments := x\<rparr>) = Off n"
  "Imm (n\<lparr>Comments := x\<rparr>) = Imm n"
  by (simp_all add: OpCode_def Dst_def Src_def Off_def Imm_def)

lemma LoadImm64_not_jump: "LoadImm64 \<noteq> JumpA" "LoadImm64 \<noteq> Exit"
  by (simp_all add: LoadImm64_def JumpA_def Exit_def OpClassLoadImm_def MemOpModeImm_def
      MemOpSize64_def OpClassJump64_def ALUSrcImm_def JumpOpA_def JumpOpExit_def)

lemma MakeInsn_Annotation [simp]: "(MakeInsn opcode dst src offset imm)\<lparr>Annotation := ''''\<rparr> = MakeInsn opcode dst src offset imm"
  by (simp add: MakeInsn_def)

lemma OpClass_MakeInsn [simp]: "OpClass (MakeInsn opcode dst src offset imm) = opcode AND OpClassMask"
  by (simp add: OpClass_def)

lemma LoadImm64_pair_insns:
  "insns (Block_LoadImm64 dst imm b) =
     (if nextInsnReachable (maybeWriteTrampoline (MakeInsn LoadImm64 dst 0 0 (ucast imm)) b)
      then insns (maybeWriteTrampoline (MakeInsn LoadImm64 dst 0 0 (ucast imm)) b) @
             [MakeInsn LoadImm64 dst 0 0 (ucast imm),
              MakeInsn LoadImm64Pt2 0 0 0 (ucast (signed_drop_bit 32 imm))]
      else insns (maybeWriteTrampoline (MakeInsn LoadImm64 dst 0 0 (ucast imm)) b))"
proof -
  let ?p1 = "MakeInsn LoadImm64 dst 0 0 (ucast imm)"
  let ?p2 = "MakeInsn LoadImm64Pt2 0 0 0 (ucast (signed_drop_bit 32 imm))"
  let ?b1 = "maybeWriteTrampoline ?p1 b"
  let ?b2 = "addInsnWithOffsetFixupNoTrampoline ?p1 '''' ?b1"
  have s: "Block_LoadImm64 dst imm b = addInsnWithOffsetFixupNoTrampoline ?p2 '''' ?b2"
    by (simp add: Block_LoadImm64_def add_def addInsn_def addInsnWithOffsetFixup_def
        maybeWriteTrampoline_Pt2)
  show ?thesis
  proof (cases "nextInsnReachable ?b1")
    case True
    then have i2: "insns ?b2 = insns ?b1 @ [?p1]" by (simp add: insns_addNoTrampoline)
    then have "nextInsnReachable ?b2"
      by (simp add: nextInsnReachable_iff LoadImm64_not_jump)
    then show ?thesis using True i2 by (simp add: s insns_addNoTrampoline)
  next
    case False
    then have u: "?b2 = ?b1\<lparr>labelToInsnIdx := (\<lambda>k. if k \<in> set (labelsAt ?b1 (length (insns ?b1))) then None
                              else labelToInsnIdx ?b1 k),
       insnIdxToLabels := (insnIdxToLabels ?b1)(length (insns ?b1) := None)\<rparr>"
      by (rule addNoTrampoline_unreachable)
    have n: "length (insns ?b1) \<noteq> 0 \<and>
        (OpCode (last (insns ?b1)) = JumpA \<or> OpCode (last (insns ?b1)) = Exit)"
      using False unfolding nextInsnReachable_iff by blast
    have "insns ?b2 = insns ?b1" "labelsAt ?b2 (length (insns ?b1)) = []"
      by (subst u, simp add: labelsAt_def)+
    then have "\<not> nextInsnReachable ?b2"
      using n unfolding nextInsnReachable_iff by auto
    then show ?thesis using False by (simp add: s insns_addNoTrampoline)
  qed
qed

lemma grows_nth:
  assumes "map f xs' = map f xs @ ys" and "i < length xs"
  shows "i < length xs' \<and> f (xs' ! i) = f (xs ! i)"
proof -
  have "length xs' = length xs + length ys"
    using arg_cong[OF assms(1), of length] by simp
  then have l: "i < length xs'" using assms(2) by simp
  have "f (xs' ! i) = map f xs' ! i" using l by simp
  also have "\<dots> = (map f xs @ ys) ! i" by (simp only: assms(1))
  also have "\<dots> = f (xs ! i)" using assms(2) by (simp add: nth_append)
  finally show ?thesis using l by simp
qed

section \<open>The double-length immediate load\<close>

text \<open>
  C4. \<open>maybeWriteTrampoline\<close> returns the Block as it is when the next instruction is a
  second half (opcode 0), whatever the distance since the last trampoline. So
  \<open>Block_LoadImm64\<close> either appends both halves next to each other (when the first half is
  reachable after its own trampoline check) or appends neither; and whatever calls
  follow, the two positions keep the opcodes \<open>LoadImm64\<close> and 0 and the two halves of the
  immediate, in the Block and in the program that \<open>Assemble\<close> returns.
\<close>

theorem LoadImm64_never_split:
  "(let p1 = MakeInsn LoadImm64 dst 0 0 (ucast imm);
        p2 = MakeInsn LoadImm64Pt2 0 0 0 (ucast (signed_drop_bit 32 imm));
        b1 = maybeWriteTrampoline p1 b;
        b2 = Block_LoadImm64 dst imm b;
        k = length (insns b1)
    in maybeWriteTrampoline p2 b' = b' \<and>
       (if nextInsnReachable b1
        then insns b2 = insns b1 @ [p1, p2] \<and>
             (\<forall>cs. k + 2 \<le> length (insns (run cs b2)) \<and>
                   OpCode (insns (run cs b2) ! k) = LoadImm64 \<and>
                   OpCode (insns (run cs b2) ! (k + 1)) = LoadImm64Pt2 \<and>
                   Imm (insns (run cs b2) ! k) = ucast imm \<and>
                   Imm (insns (run cs b2) ! (k + 1)) = ucast (signed_drop_bit 32 imm) \<and>
                   (\<forall>prog. Assemble (run cs b2) = Inr prog \<longrightarrow>
                      k + 2 \<le> length prog \<and>
                      OpCode (prog ! k) = LoadImm64 \<and>
                      OpCode (prog ! (k + 1)) = LoadImm64Pt2 \<and>
                      Imm (prog ! k) = ucast imm \<and>
                      Imm (prog ! (k + 1)) = ucast (signed_drop_bit 32 imm)))
        else insns b2 = insns b1))"
proof -
  let ?p1 = "MakeInsn LoadImm64 dst 0 0 (ucast imm)"
  let ?p2 = "MakeInsn LoadImm64Pt2 0 0 0 (ucast (signed_drop_bit 32 imm))"
  let ?b1 = "maybeWriteTrampoline ?p1 b"
  let ?b2 = "Block_LoadImm64 dst imm b"
  let ?k = "length (insns ?b1)"
  have t: "maybeWriteTrampoline ?p2 b' = b'" by (simp add: maybeWriteTrampoline_Pt2)
  show ?thesis
  proof (cases "nextInsnReachable ?b1")
    case False
    then show ?thesis using t by (simp add: Let_def LoadImm64_pair_insns)
  next
    case True
    then have i2: "insns ?b2 = insns ?b1 @ [?p1, ?p2]" by (simp add: LoadImm64_pair_insns)
    have k0: "?k < length (insns ?b2)" and k1: "?k + 1 < length (insns ?b2)"
      using i2 by simp_all
    have at0: "insns ?b2 ! ?k = ?p1" and at1: "insns ?b2 ! (?k + 1) = ?p2"
      using i2 by (simp_all add: nth_append)
    have later: "?k + 2 \<le> length (insns (run cs ?b2)) \<and>
                   OpCode (insns (run cs ?b2) ! ?k) = LoadImm64 \<and>
                   OpCode (insns (run cs ?b2) ! (?k + 1)) = LoadImm64Pt2 \<and>
                   Imm (insns (run cs ?b2) ! ?k) = ucast imm \<and>
                   Imm (insns (run cs ?b2) ! (?k + 1)) = ucast (signed_drop_bit 32 imm) \<and>
                   (\<forall>prog. Assemble (run cs ?b2) = Inr prog \<longrightarrow>
                      ?k + 2 \<le> length prog \<and>
                      OpCode (prog ! ?k) = LoadImm64 \<and>
                      OpCode (prog ! (?k + 1)) = LoadImm64Pt2 \<and>
                      Imm (prog ! ?k) = ucast imm \<and>
                      Imm (prog ! (?k + 1)) = ucast (signed_drop_bit 32 imm))" for cs
    proof -
      let ?r = "run cs ?b2"
      obtain ys where o: "map OpCode (insns ?r) = map OpCode (insns ?b2) @ ys"
        using run_grows[of OpCode cs ?b2] by auto
      obtain zs where m: "map Imm (insns ?r) = map Imm (insns ?b2) @ zs"
        using run_grows[of Imm cs ?b2] by auto
      have r0: "?k < length (insns ?r)" "?k + 1 < length (insns ?r)"
        using grows_nth[OF o k0] grows_nth[OF o k1] by simp_all
      have ro: "OpCode (insns ?r ! ?k) = LoadImm64" "OpCode (insns ?r ! (?k + 1)) = LoadImm64Pt2"
        using grows_nth[OF o k0] grows_nth[OF o k1] at0 at1 by simp_all
      have ri: "Imm (insns ?r ! ?k) = ucast imm"
          "Imm (insns ?r ! (?k + 1)) = ucast (signed_drop_bit 32 imm)"
        using grows_nth[OF m k0] grows_nth[OF m k1] at0 at1 by simp_all
      have asm: "?k + 2 \<le> length prog \<and>
                      OpCode (prog ! ?k) = LoadImm64 \<and>
                      OpCode (prog ! (?k + 1)) = LoadImm64Pt2 \<and>
                      Imm (prog ! ?k) = ucast imm \<and>
                      Imm (prog ! (?k + 1)) = ucast (signed_drop_bit 32 imm)"
        if a: "Assemble ?r = Inr prog" for prog
      proof -
        have po: "map OpCode prog = map OpCode (insns ?r) @ []"
          using Assemble_map[of OpCode ?r prog, OF _ _ _ a] by simp
        have pm: "map Imm prog = map Imm (insns ?r) @ []"
          using Assemble_map[of Imm ?r prog, OF _ _ _ a] by simp
        show ?thesis
          using grows_nth[OF po r0(1)] grows_nth[OF po r0(2)]
            grows_nth[OF pm r0(1)] grows_nth[OF pm r0(2)] ro ri
          by simp
      qed
      show ?thesis using r0 ro ri asm by simp
    qed
    show ?thesis using True t i2 later by (simp add: Let_def)
  qed
qed

text \<open>
  The theorem with stride 2 after one pending jump: when the second half is added the
  distance since the last trampoline has reached the stride, the pair stays together and
  the trampoline (two \<open>JumpA\<close>) comes before the next instruction.
\<close>

theorem LoadImm64_never_split_witness:
  "(let b = run [CallSetTrampolineStride 2, CallInstrWithOffsetFixup JumpEq64 R1 R2 ''L'' 0]
              (NewBlock False);
        p1 = MakeInsn LoadImm64 R3 0 0 (ucast (0x1122334455667788 :: 64 word));
        b1 = addInsnWithOffsetFixupNoTrampoline p1 '''' (maybeWriteTrampoline p1 b);
        cs = [CallInstr Mov64 R0 R0 0 0 '''', CallLabelNextInsn ''L'', CallInstr Exit 0 0 0 0 '''']
    in nextInsnReachable (maybeWriteTrampoline p1 b) \<and>
       length (insns (maybeWriteTrampoline p1 b)) = 1 \<and>
       trampolinesEnabled b1 \<and>
       trampolineStride b1 \<le> int (length (insns b1)) - int (lastTrampolineAddr b1) \<and>
       OpCode (insns (run cs (Block_LoadImm64 R3 0x1122334455667788 b)) ! 1) = LoadImm64 \<and>
       OpCode (insns (run cs (Block_LoadImm64 R3 0x1122334455667788 b)) ! 2) = LoadImm64Pt2 \<and>
       map OpCode (insns (run cs (Block_LoadImm64 R3 0x1122334455667788 b)))
         = [JumpEq64, LoadImm64, LoadImm64Pt2, JumpA, JumpA, Mov64, Exit])"
proof -
  let ?b = "run [CallSetTrampolineStride 2, CallInstrWithOffsetFixup JumpEq64 R1 R2 ''L'' 0]
              (NewBlock False)"
  let ?p1 = "MakeInsn LoadImm64 R3 0 0 (ucast (0x1122334455667788 :: 64 word))"
  let ?b1 = "addInsnWithOffsetFixupNoTrampoline ?p1 '''' (maybeWriteTrampoline ?p1 ?b)"
  let ?cs = "[CallInstr Mov64 R0 R0 0 0 '''', CallLabelNextInsn ''L'', CallInstr Exit 0 0 0 0 '''']"
  let ?r = "run ?cs (Block_LoadImm64 R3 0x1122334455667788 ?b)"
  have c1: "nextInsnReachable (maybeWriteTrampoline ?p1 ?b)"
    by code_simp
  have c2: "length (insns (maybeWriteTrampoline ?p1 ?b)) = 1"
    by code_simp
  have c3: "trampolinesEnabled ?b1 \<and>
       trampolineStride ?b1 \<le> int (length (insns ?b1)) - int (lastTrampolineAddr ?b1)"
    by code_simp
  have c4: "map OpCode (insns ?r) = [JumpEq64, LoadImm64, LoadImm64Pt2, JumpA, JumpA, Mov64, Exit]"
    by code_simp
  have "\<forall>cs. OpCode (insns (run cs (Block_LoadImm64 R3 0x1122334455667788 ?b)) !
                  length (insns (maybeWriteTrampoline ?p1 ?b))) = LoadImm64 \<and>
             OpCode (insns (run cs (Block_LoadImm64 R3 0x1122334455667788 ?b)) !
                  (length (insns (maybeWriteTrampoline ?p1 ?b)) + 1)) = LoadImm64Pt2"
    using LoadImm64_never_split[of R3 "0x1122334455667788" ?b ?b] c1
    unfolding Let_def by presburger
  then have "OpCode (insns ?r ! 1) = LoadImm64 \<and> OpCode (insns ?r ! (1 + 1)) = LoadImm64Pt2"
    unfolding c2 by blast
  moreover have "(1::nat) + 1 = 2" by simp
  ultimately have c5: "OpCode (insns ?r ! 1) = LoadImm64 \<and> OpCode (insns ?r ! 2) = LoadImm64Pt2"
    by (simp only:)
  show ?thesis
    unfolding Let_def using c1 c2 c3 c4 c5 by blast
qed

section \<open>Resolving the fixups of a label\<close>

lemma putOffset_putOffset [simp]: "putOffset (putOffset n v) w = putOffset n w"
  by (simp add: putOffset_def PutUint16_def list_update_swap)

lemma Off_putOffset: "3 < length (Instruction n) \<Longrightarrow> Off (putOffset n v) = v"
  unfolding Off_def putOffset_def by (simp add: Uint16_PutUint16)

lemma Instruction_putOffset:
  "length (Instruction n) = 8 \<Longrightarrow>
   Instruction (putOffset n v) ! 2 = ucast v \<and>
   Instruction (putOffset n v) ! 3 = ucast (drop_bit 8 v) \<and>
   (\<forall>j. j \<noteq> 2 \<and> j \<noteq> 3 \<longrightarrow> Instruction (putOffset n v) ! j = Instruction n ! j)"
  by (simp add: putOffset_def PutUint16_def)

lemma sint_offset:
  "- 32768 \<le> off \<Longrightarrow> off \<le> 32767 \<Longrightarrow> sint (word_of_int off :: 16 word) = off"
proof -
  assume a: "- 32768 \<le> off" "off \<le> 32767"
  have "sint (word_of_int off :: 16 word) = signed_take_bit 15 off"
    by (simp add: sint_sbintrunc')
  also have "\<dots> = off"
    using a by (intro signed_take_bit_int_eq_self) simp_all
  finally show ?thesis .
qed

lemma loop_labelToInsnIdx [simp]:
  "labelToInsnIdx (fst (applyFixUps_loop l fs b)) = labelToInsnIdx b"
  using applyFixUps_loop_frame[of l fs b]
  by (metis Block.select_convs(3) Block.surjective Block.update_convs(1))

lemma loop_unbound:
  "labelToInsnIdx b l = None \<Longrightarrow>
   applyFixUps_loop l fs b = (b, if fs = [] then None else Some (MissingLabel l))"
  by (cases fs) simp_all

lemma loop_ok_iff:
  "labelToInsnIdx b l = Some t \<Longrightarrow>
   snd (applyFixUps_loop l fs b) = None \<longleftrightarrow>
     (\<forall>f \<in> set fs. int t - int (origInsnIdx f) - 1 \<noteq> - 1 \<and>
                    - 32768 \<le> int t - int (origInsnIdx f) - 1 \<and>
                    int t - int (origInsnIdx f) - 1 \<le> 32767)"
proof (induction fs arbitrary: b)
  case Nil
  then show ?case by simp
next
  case (Cons f fs)
  let ?b1 = "b\<lparr>insns := (insns b)[origInsnIdx f :=
               putOffset (insns b ! origInsnIdx f) (word_of_int (int t - int (origInsnIdx f) - 1))]\<rparr>"
  have "labelToInsnIdx ?b1 l = Some t" using Cons.prems by simp
  from Cons.IH[OF this] Cons.prems show ?case
    by (auto simp: Let_def MaxInt16_def MinInt16_def)
qed

lemma loop_error_range:
  "labelToInsnIdx b l = Some t \<Longrightarrow> snd (applyFixUps_loop l fs b) = Some e \<Longrightarrow> isRangeError e"
proof (induction fs arbitrary: b)
  case Nil
  then show ?case by simp
next
  case (Cons f fs)
  let ?b1 = "b\<lparr>insns := (insns b)[origInsnIdx f :=
               putOffset (insns b ! origInsnIdx f) (word_of_int (int t - int (origInsnIdx f) - 1))]\<rparr>"
  have 1: "labelToInsnIdx ?b1 l = Some t" using Cons.prems by simp
  show ?case
    using Cons.prems Cons.IH[OF 1] by (auto simp: Let_def split: if_splits)
qed

lemma loop_result_nth_aux:
  "labelToInsnIdx b l = Some t \<Longrightarrow> snd (applyFixUps_loop l fs b) = None \<Longrightarrow>
   (\<And>j. w j = word_of_int (int t - int j - 1)) \<Longrightarrow>
   insns (fst (applyFixUps_loop l fs b)) ! i =
     (if i \<in> origInsnIdx ` set fs \<and> i < length (insns b)
      then putOffset (insns b ! i) (w i)
      else insns b ! i)"
proof (induction fs arbitrary: b)
  case Nil
  then show ?case by simp
next
  case (Cons f fs)
  let ?b1 = "b\<lparr>insns := (insns b)[origInsnIdx f := putOffset (insns b ! origInsnIdx f) (w (origInsnIdx f))]\<rparr>"
  have 1: "labelToInsnIdx ?b1 l = Some t" using Cons.prems by simp
  have ok: "int t - int (origInsnIdx f) - 1 \<noteq> - 1 \<and>
        \<not> (int t - int (origInsnIdx f) - 1 > MaxInt16 \<or> int t - int (origInsnIdx f) - 1 < MinInt16)"
    using Cons.prems(1,2) by (auto simp: Let_def split: if_splits)
  then have step: "applyFixUps_loop l (f # fs) b = applyFixUps_loop l fs ?b1"
    using Cons.prems(1) by (simp add: Let_def Cons.prems(3))
  then have 2: "snd (applyFixUps_loop l fs ?b1) = None" using Cons.prems(2) by simp
  have ih: "insns (fst (applyFixUps_loop l fs ?b1)) ! i =
     (if i \<in> origInsnIdx ` set fs \<and> i < length (insns ?b1)
      then putOffset (insns ?b1 ! i) (w i)
      else insns ?b1 ! i)"
    by (rule Cons.IH[OF 1 2 Cons.prems(3)])
  have b1: "insns ?b1 ! i =
      (if i = origInsnIdx f \<and> i < length (insns b) then putOffset (insns b ! i) (w i)
       else insns b ! i)"
  proof (cases "i = origInsnIdx f")
    case True
    show ?thesis
    proof (cases "i < length (insns b)")
      case l: True
      then show ?thesis using True by simp
    next
      case False
      then have "length (insns b) \<le> origInsnIdx f" using True by simp
      then have "(insns b)[origInsnIdx f := putOffset (insns b ! origInsnIdx f) (w (origInsnIdx f))]
          = insns b" by (rule list_update_beyond)
      then show ?thesis using False by simp
    qed
  next
    case False
    then show ?thesis by simp
  qed
  have len: "length (insns ?b1) = length (insns b)" by simp
  show ?case
    unfolding step ih b1 len by auto
qed

lemma loop_result_nth:
  "labelToInsnIdx b l = Some t \<Longrightarrow> snd (applyFixUps_loop l fs b) = None \<Longrightarrow>
   insns (fst (applyFixUps_loop l fs b)) ! i =
     (if i \<in> origInsnIdx ` set fs \<and> i < length (insns b)
      then putOffset (insns b ! i) (word_of_int (int t - int i - 1))
      else insns b ! i)"
  by (rule loop_result_nth_aux) simp_all

lemma applyFixUps_snd:
  "snd (applyFixUps l b) = snd (applyFixUps_loop l (fixUpsFor b l) b)"
  by (simp add: applyFixUps_def split: prod.splits option.splits)

lemma applyFixUps_fixUps:
  "fixUps (fst (applyFixUps l b)) =
     (if snd (applyFixUps l b) = None then AList.delete l (fixUps b) else fixUps b)"
proof -
  obtain b' e where r: "applyFixUps_loop l (fixUpsFor b l) b = (b', e)"
    by (cases "applyFixUps_loop l (fixUpsFor b l) b")
  have "fixUps b' = fixUps b"
    using applyFixUps_loop_frame[of l "fixUpsFor b l" b] r
    by (metis Block.select_convs(2) Block.surjective Block.update_convs(1) fst_conv)
  then show ?thesis using r by (cases e) (simp_all add: applyFixUps_def)
qed

text \<open>
  C1. With the label L bound at index \<open>t\<close>, \<open>applyFixUps L\<close> computes for each fixup of L
  at instruction \<open>i\<close> the offset \<open>t - i - 1\<close>. It succeeds iff every such offset lies in
  [-32768, 32767] and is not -1, and every error it returns then is a range error. On
  success the fixups of L are cleared and each instruction \<open>i\<close> has the offset in bytes 2-3,
  little-endian (\<open>Off\<close> reads it back, signed), its other bytes unchanged. For a single
  fixup the result is the error for -1, the error for an offset above 32767 or below
  -32768, and success otherwise.
\<close>

theorem fixup_resolution:
  assumes "labelToInsnIdx b L = Some t"
  shows
   "(snd (applyFixUps L b) = None \<longleftrightarrow>
       (\<forall>f \<in> set (fixUpsFor b L).
           int t - int (origInsnIdx f) - 1 \<noteq> - 1 \<and>
           - 32768 \<le> int t - int (origInsnIdx f) - 1 \<and>
           int t - int (origInsnIdx f) - 1 \<le> 32767))
    \<and> (\<forall>e. snd (applyFixUps L b) = Some e \<longrightarrow> isRangeError e)
    \<and> (snd (applyFixUps L b) = None \<longrightarrow>
         map_of (fixUps (fst (applyFixUps L b))) L = None \<and>
         (\<forall>f \<in> set (fixUpsFor b L).
             origInsnIdx f < length (insns b) \<and>
             length (Instruction (insns b ! origInsnIdx f)) = 8 \<longrightarrow>
             (let i = origInsnIdx f; off = int t - int i - 1;
                  n = insns (fst (applyFixUps L b)) ! i
              in sint (Off n) = off \<and> Off n = word_of_int off \<and>
                 Instruction n ! 2 = ucast (word_of_int off :: 16 word) \<and>
                 Instruction n ! 3 = ucast (drop_bit 8 (word_of_int off :: 16 word)) \<and>
                 (\<forall>j. j \<noteq> 2 \<and> j \<noteq> 3 \<longrightarrow>
                      Instruction n ! j = Instruction (insns b ! i) ! j))))
    \<and> (\<forall>i. fixUpsFor b L = [FixUp i] \<longrightarrow>
         snd (applyFixUps L b) =
           (if int t - int i - 1 = - 1 then Some (JumpToSameInsn (- 1) L)
            else if int t - int i - 1 > 32767 \<or> int t - int i - 1 < - 32768
                 then Some (JumpOutOfRange (int t - int i - 1) L)
                 else None))"
proof -
  let ?fs = "fixUpsFor b L"
  let ?r = "applyFixUps L b"
  have A: "snd ?r = None \<longleftrightarrow>
       (\<forall>f \<in> set ?fs.
           int t - int (origInsnIdx f) - 1 \<noteq> - 1 \<and>
           - 32768 \<le> int t - int (origInsnIdx f) - 1 \<and>
           int t - int (origInsnIdx f) - 1 \<le> 32767)"
    unfolding applyFixUps_snd by (rule loop_ok_iff[OF assms])
  have B: "\<forall>e. snd ?r = Some e \<longrightarrow> isRangeError e"
    unfolding applyFixUps_snd using loop_error_range[OF assms] by blast
  have C: "map_of (fixUps (fst ?r)) L = None \<and>
         (\<forall>f \<in> set ?fs.
             origInsnIdx f < length (insns b) \<and>
             length (Instruction (insns b ! origInsnIdx f)) = 8 \<longrightarrow>
             (let i = origInsnIdx f; off = int t - int i - 1;
                  n = insns (fst ?r) ! i
              in sint (Off n) = off \<and> Off n = word_of_int off \<and>
                 Instruction n ! 2 = ucast (word_of_int off :: 16 word) \<and>
                 Instruction n ! 3 = ucast (drop_bit 8 (word_of_int off :: 16 word)) \<and>
                 (\<forall>j. j \<noteq> 2 \<and> j \<noteq> 3 \<longrightarrow>
                      Instruction n ! j = Instruction (insns b ! i) ! j)))"
    if ok: "snd ?r = None"
  proof -
    have ok': "snd (applyFixUps_loop L ?fs b) = None" using ok by (simp add: applyFixUps_snd)
    have del: "map_of (fixUps (fst ?r)) L = None"
      using ok by (simp add: applyFixUps_fixUps delete_conv')
    have each: "(let i = origInsnIdx f; off = int t - int i - 1;
                  n = insns (fst ?r) ! i
              in sint (Off n) = off \<and> Off n = word_of_int off \<and>
                 Instruction n ! 2 = ucast (word_of_int off :: 16 word) \<and>
                 Instruction n ! 3 = ucast (drop_bit 8 (word_of_int off :: 16 word)) \<and>
                 (\<forall>j. j \<noteq> 2 \<and> j \<noteq> 3 \<longrightarrow>
                      Instruction n ! j = Instruction (insns b ! i) ! j))"
      if f: "f \<in> set ?fs" and lt: "origInsnIdx f < length (insns b)"
        and l8: "length (Instruction (insns b ! origInsnIdx f)) = 8" for f
    proof -
      let ?i = "origInsnIdx f"
      let ?off = "int t - int ?i - 1"
      have n: "insns (fst ?r) ! ?i = putOffset (insns b ! ?i) (word_of_int ?off)"
        using loop_result_nth[OF assms ok', of ?i] f lt by (simp add: applyFixUps_insns)
      have rng: "- 32768 \<le> ?off" "?off \<le> 32767" using A ok f by auto
      have o: "Off (putOffset (insns b ! ?i) (word_of_int ?off)) = word_of_int ?off"
        using l8 by (simp add: Off_putOffset)
      show ?thesis
        unfolding Let_def n o using sint_offset[OF rng] Instruction_putOffset[OF l8] by blast
    qed
    show ?thesis using del each by blast
  qed
  have D: "snd ?r =
           (if int t - int i - 1 = - 1 then Some (JumpToSameInsn (- 1) L)
            else if int t - int i - 1 > 32767 \<or> int t - int i - 1 < - 32768
                 then Some (JumpOutOfRange (int t - int i - 1) L)
                 else None)" if "?fs = [FixUp i]" for i
    unfolding applyFixUps_snd that using assms
    by (simp add: Let_def MaxInt16_def MinInt16_def)
  show ?thesis using A B C D by blast
qed

text \<open>
  The theorem at the boundaries: offsets 32767 and -32768 are patched (bytes ff 7f for
  32767), offsets 32768 and -32769 are range errors, and offset -1 is the same-instruction
  error.
\<close>

theorem fixup_resolution_witness:
  "snd (applyFixUps ''L'' (fixupBlock 32768 0 1)) = None \<and>
   sint (Off (insns (fst (applyFixUps ''L'' (fixupBlock 32768 0 1))) ! 0)) = 32767 \<and>
   Instruction (insns (fst (applyFixUps ''L'' (fixupBlock 32768 0 1))) ! 0) ! 2 = 0xff \<and>
   Instruction (insns (fst (applyFixUps ''L'' (fixupBlock 32768 0 1))) ! 0) ! 3 = 0x7f \<and>
   snd (applyFixUps ''L'' (fixupBlock 32769 0 1)) = Some (JumpOutOfRange 32768 ''L'') \<and>
   snd (applyFixUps ''L'' (fixupBlock 1 32768 32769)) = None \<and>
   sint (Off (insns (fst (applyFixUps ''L'' (fixupBlock 1 32768 32769))) ! 32768)) = - 32768 \<and>
   snd (applyFixUps ''L'' (fixupBlock 0 32768 32769)) = Some (JumpOutOfRange (- 32769) ''L'') \<and>
   snd (applyFixUps ''L'' (fixupBlock 5 5 6)) = Some (JumpToSameInsn (- 1) ''L'')"
proof -
  have h: "labelToInsnIdx (fixupBlock t i n) ''L'' = Some t" for t i n
    by (simp add: fixupBlock_def)
  have f: "fixUpsFor (fixupBlock t i n) ''L'' = [FixUp i]" for t i n
    by (simp add: fixupBlock_def fixUpsFor_def)
  have l: "i < n \<Longrightarrow> length (insns (fixupBlock t i n)) = n \<and>
      length (Instruction (insns (fixupBlock t i n) ! i)) = 8" for t i n
    by (simp add: fixupBlock_def MakeInsn_def PutUint16_def PutUint32_def)
  have D: "snd (applyFixUps ''L'' (fixupBlock t i n)) =
           (if int t - int i - 1 = - 1 then Some (JumpToSameInsn (- 1) ''L'')
            else if int t - int i - 1 > 32767 \<or> int t - int i - 1 < - 32768
                 then Some (JumpOutOfRange (int t - int i - 1) ''L'')
                 else None)" for t i n
    using fixup_resolution[OF h, of t i n] f[of t i n] by blast
  have 1: "snd (applyFixUps ''L'' (fixupBlock 32768 0 1)) = None" by (simp add: D)
  have 2: "snd (applyFixUps ''L'' (fixupBlock 32769 0 1)) = Some (JumpOutOfRange 32768 ''L'')"
    by (simp add: D)
  have 3: "snd (applyFixUps ''L'' (fixupBlock 1 32768 32769)) = None" by (simp add: D)
  have 4: "snd (applyFixUps ''L'' (fixupBlock 0 32768 32769)) = Some (JumpOutOfRange (- 32769) ''L'')"
    by (simp add: D)
  have 5: "snd (applyFixUps ''L'' (fixupBlock 5 5 6)) = Some (JumpToSameInsn (- 1) ''L'')"
    by (simp add: D)
  have 6: "sint (Off (insns (fst (applyFixUps ''L'' (fixupBlock 32768 0 1))) ! 0)) = 32767 \<and>
   Instruction (insns (fst (applyFixUps ''L'' (fixupBlock 32768 0 1))) ! 0) ! 2 = 0xff \<and>
   Instruction (insns (fst (applyFixUps ''L'' (fixupBlock 32768 0 1))) ! 0) ! 3 = 0x7f"
    using fixup_resolution[OF h, of 32768 0 1] f[of 32768 0 1] l[of 0 1 32768] 1
    by (simp add: Let_def)
  have 7: "sint (Off (insns (fst (applyFixUps ''L'' (fixupBlock 1 32768 32769))) ! 32768)) = - 32768"
    using fixup_resolution[OF h, of 1 32768 32769] f[of 1 32768 32769] l[of 32768 32769 1] 3
    by (simp add: Let_def)
  show ?thesis using 1 2 3 4 5 6 7 by blast
qed

section \<open>Well-formedness and the deferred error along a call sequence\<close>

lemma length_Instruction_putOffset [simp]:
  "length (Instruction (putOffset n v)) = length (Instruction n)"
  by (simp add: putOffset_def PutUint16_def)

lemma length_Instruction_MakeInsn [simp]:
  "length (Instruction (MakeInsn opcode dst src offset imm)) = 8"
  by (simp add: MakeInsn_def PutUint16_def PutUint32_def)

lemma all8_map: "(\<forall>n \<in> set xs. length (Instruction n) = 8) \<longleftrightarrow>
    map (\<lambda>n. length (Instruction n)) xs = replicate (length xs) 8"
  by (induction xs) auto

lemma applyFixUps_length [simp]: "length (insns (fst (applyFixUps l b))) = length (insns b)"
  by (simp add: applyFixUps_insns applyFixUps_loop_length)

lemma applyFixUps_all8:
  "(\<forall>n \<in> set (insns (fst (applyFixUps l b))). length (Instruction n) = 8)
     \<longleftrightarrow> (\<forall>n \<in> set (insns b). length (Instruction n) = 8)"
  unfolding all8_map using applyFixUps_map[of "\<lambda>n. length (Instruction n)" l b] by simp

lemma wfBlockI:
  assumes "fixUps b = al" and "insns b = xs"
    and "distinct (map fst al)"
    and "\<And>n. n \<in> set xs \<Longrightarrow> length (Instruction n) = 8"
    and "\<And>l fs f. map_of al l = Some fs \<Longrightarrow> f \<in> set fs \<Longrightarrow> origInsnIdx f < length xs"
    and "\<And>l l' fs fs'. map_of al l = Some fs \<Longrightarrow> map_of al l' = Some fs' \<Longrightarrow> l \<noteq> l'
           \<Longrightarrow> set fs \<inter> set fs' = {}"
  shows "wfBlock b"
  unfolding wfBlock_def assms(1,2) using assms(3-6) by blast

lemma wfBlockD:
  assumes "wfBlock b"
  shows "distinct (map fst (fixUps b))"
    and "\<And>n. n \<in> set (insns b) \<Longrightarrow> length (Instruction n) = 8"
    and "\<And>l fs f. map_of (fixUps b) l = Some fs \<Longrightarrow> f \<in> set fs
           \<Longrightarrow> origInsnIdx f < length (insns b)"
    and "\<And>l l' fs fs'. map_of (fixUps b) l = Some fs \<Longrightarrow> map_of (fixUps b) l' = Some fs'
           \<Longrightarrow> l \<noteq> l' \<Longrightarrow> set fs \<inter> set fs' = {}"
  using assms unfolding wfBlock_def by blast+

lemma wfBlock_cong:
  "fixUps b' = fixUps b \<Longrightarrow> insns b' = insns b \<Longrightarrow> wfBlock b' = wfBlock b"
  by (simp add: wfBlock_def)

lemma wfBlock_applyFixUps:
  assumes "wfBlock b"
  shows "wfBlock (fst (applyFixUps l b))"
proof (cases "snd (applyFixUps l b) = None")
  case False
  then have f: "fixUps (fst (applyFixUps l b)) = fixUps b"
    unfolding applyFixUps_fixUps by (simp only: if_False)
  show ?thesis
  proof (rule wfBlockI[OF f refl])
    show "distinct (map fst (fixUps b))" by (rule wfBlockD(1)[OF assms])
  next
    fix n assume "n \<in> set (insns (fst (applyFixUps l b)))"
    then show "length (Instruction n) = 8"
      using wfBlockD(2)[OF assms] applyFixUps_all8[of l b] by blast
  next
    fix la fs f
    assume "map_of (fixUps b) la = Some fs" "f \<in> set fs"
    then show "origInsnIdx f < length (insns (fst (applyFixUps l b)))"
      using wfBlockD(3)[OF assms] by simp
  next
    fix la l' fs fs'
    assume "map_of (fixUps b) la = Some fs" "map_of (fixUps b) l' = Some fs'" "la \<noteq> l'"
    then show "set fs \<inter> set fs' = {}" by (rule wfBlockD(4)[OF assms])
  qed
next
  case True
  then have f: "fixUps (fst (applyFixUps l b)) = AList.delete l (fixUps b)"
    by (simp add: applyFixUps_fixUps)
  have m: "map_of (AList.delete l (fixUps b)) = (map_of (fixUps b))(l := None)"
    by (simp add: delete_conv')
  show ?thesis
  proof (rule wfBlockI[OF f refl])
    show "distinct (map fst (AList.delete l (fixUps b)))"
      using wfBlockD(1)[OF assms] by (simp add: distinct_delete)
  next
    fix n assume "n \<in> set (insns (fst (applyFixUps l b)))"
    then show "length (Instruction n) = 8"
      using wfBlockD(2)[OF assms] applyFixUps_all8[of l b] by blast
  next
    fix la fs f
    assume "map_of (AList.delete l (fixUps b)) la = Some fs" "f \<in> set fs"
    then have "map_of (fixUps b) la = Some fs" "f \<in> set fs"
      unfolding m by (auto split: if_splits)
    then show "origInsnIdx f < length (insns (fst (applyFixUps l b)))"
      using wfBlockD(3)[OF assms] by simp
  next
    fix la l' fs fs'
    assume "map_of (AList.delete l (fixUps b)) la = Some fs"
      "map_of (AList.delete l (fixUps b)) l' = Some fs'" "la \<noteq> l'"
    then have "map_of (fixUps b) la = Some fs" "map_of (fixUps b) l' = Some fs'" "la \<noteq> l'"
      unfolding m by (auto split: if_splits)
    then show "set fs \<inter> set fs' = {}" by (rule wfBlockD(4)[OF assms])
  qed
qed

lemma applyFixUps_fields:
  "labelToInsnIdx (fst (applyFixUps l b)) = labelToInsnIdx b"
  "insnIdxToLabels (fst (applyFixUps l b)) = insnIdxToLabels b"
  "insnIdxToComments (fst (applyFixUps l b)) = insnIdxToComments b"
  "inUseJumpTargets (fst (applyFixUps l b)) = inUseJumpTargets b"
  "policyDebugEnabled (fst (applyFixUps l b)) = policyDebugEnabled b"
  "trampolinesEnabled (fst (applyFixUps l b)) = trampolinesEnabled b"
  "trampolineIdx (fst (applyFixUps l b)) = trampolineIdx b"
  "lastTrampolineAddr (fst (applyFixUps l b)) = lastTrampolineAddr b"
  "deferredErr (fst (applyFixUps l b)) = deferredErr b"
  "NumJumps (fst (applyFixUps l b)) = NumJumps b"
  "trampolineStride (fst (applyFixUps l b)) = trampolineStride b"
  by (subst applyFixUps_frame, simp)+

lemma LabelNextInsn_unfold:
  "LabelNextInsn l b =
     (let b2 = b\<lparr>labelToInsnIdx := (labelToInsnIdx b)(l \<mapsto> length (insns b)),
                 insnIdxToLabels := (insnIdxToLabels b)
                    (length (insns b) \<mapsto> labelsAt b (length (insns b)) @ [l])\<rparr>;
          b3 = fst (applyFixUps l b2)
      in case snd (applyFixUps l b2) of
           None \<Rightarrow> b3
         | Some err \<Rightarrow>
             if deferredErr b = None
             then b3\<lparr>deferredErr := Some (FixUpsFailed l (length (insns b)) err)\<rparr>
             else b3)"
proof -
  let ?b2 = "b\<lparr>labelToInsnIdx := (labelToInsnIdx b)(l \<mapsto> length (insns b)),
                 insnIdxToLabels := (insnIdxToLabels b)
                    (length (insns b) \<mapsto> labelsAt b (length (insns b)) @ [l])\<rparr>"
  obtain b3 e where r: "applyFixUps l ?b2 = (b3, e)" by (cases "applyFixUps l ?b2")
  have d: "deferredErr b3 = deferredErr b" and n: "length (insns b3) = length (insns b)"
    using applyFixUps_fields(9)[of l ?b2] applyFixUps_length[of l ?b2] r by simp_all
  have "LabelNextInsn l b =
      (case e of None \<Rightarrow> b3
       | Some err \<Rightarrow> if deferredErr b3 = None
            then b3\<lparr>deferredErr := Some (FixUpsFailed l (length (insns b3)) err)\<rparr> else b3)"
    using r by (simp add: LabelNextInsn_def Let_def labelsAt_def split: option.splits)
  then show ?thesis using r d n by (simp add: Let_def split: option.splits)
qed

lemma wfBlock_LabelNextInsn: "wfBlock b \<Longrightarrow> wfBlock (LabelNextInsn l b)"
proof -
  assume w: "wfBlock b"
  let ?b2 = "b\<lparr>labelToInsnIdx := (labelToInsnIdx b)(l \<mapsto> length (insns b)),
                 insnIdxToLabels := (insnIdxToLabels b)
                    (length (insns b) \<mapsto> labelsAt b (length (insns b)) @ [l])\<rparr>"
  let ?b3 = "fst (applyFixUps l ?b2)"
  have "wfBlock ?b2" using w wfBlock_cong[of ?b2 b] by simp
  then have 3: "wfBlock ?b3" by (rule wfBlock_applyFixUps)
  have 4: "wfBlock (?b3\<lparr>deferredErr := e\<rparr>)" for e
    using 3 wfBlock_cong[of "?b3\<lparr>deferredErr := e\<rparr>" ?b3] by simp
  show ?thesis
    unfolding LabelNextInsn_unfold Let_def
    using 3 4 by (simp split: option.splits)
qed

lemma wfBlock_addNoTrampoline:
  assumes "wfBlock b" and "length (Instruction insn) = 8"
  shows "wfBlock (addInsnWithOffsetFixupNoTrampoline insn l b)"
proof (cases "nextInsnReachable b")
  case False
  then show ?thesis
    using assms(1) wfBlock_cong[of "addInsnWithOffsetFixupNoTrampoline insn l b" b]
    by (simp add: addNoTrampoline_unreachable)
next
  case True
  let ?n = "length (insns b)"
  note w = wfBlockD[OF assms(1)]
  show ?thesis
  proof (cases "l = ''''")
    case e: True
    let ?b' = "addInsnWithOffsetFixupNoTrampoline insn l b"
    have f: "fixUps ?b' = fixUps b" and i: "insns ?b' = insns b @ [insn]"
      using True e by (simp_all add: addNoTrampoline_reachable)
    show ?thesis
    proof (rule wfBlockI[OF f i])
      show "distinct (map fst (fixUps b))" by (rule w(1))
    next
      fix n assume "n \<in> set (insns b @ [insn])"
      then show "length (Instruction n) = 8" using w(2) assms(2) by auto
    next
      fix la fs f assume "map_of (fixUps b) la = Some fs" "f \<in> set fs"
      then show "origInsnIdx f < length (insns b @ [insn])" using w(3) by (simp add: less_SucI)
    next
      fix la l' fs fs'
      assume "map_of (fixUps b) la = Some fs" "map_of (fixUps b) l' = Some fs'" "la \<noteq> l'"
      then show "set fs \<inter> set fs' = {}" by (rule w(4))
    qed
  next
    case ne: False
    let ?b' = "addInsnWithOffsetFixupNoTrampoline insn l b"
    let ?x = "if policyDebugEnabled b then insn\<lparr>Annotation := ''goto '' @ l\<rparr> else insn"
    let ?fs = "fixUpsFor b l @ [FixUp ?n]"
    let ?al = "AList.update l ?fs (fixUps b)"
    have f: "fixUps ?b' = ?al" and i: "insns ?b' = insns b @ [?x]"
      using True ne by (simp_all add: addNoTrampoline_reachable)
    have m: "map_of ?al = (map_of (fixUps b))(l \<mapsto> ?fs)" by (simp add: update_conv')
    have old: "\<And>f. f \<in> set (fixUpsFor b l) \<Longrightarrow> origInsnIdx f < ?n"
    proof -
      fix f assume f: "f \<in> set (fixUpsFor b l)"
      then obtain fs where "map_of (fixUps b) l = Some fs" "f \<in> set fs"
        by (cases "map_of (fixUps b) l") (auto simp: fixUpsFor_def)
      then show "origInsnIdx f < ?n" by (rule w(3))
    qed
    have disj: "set ?fs \<inter> set fs' = {}"
      if a: "map_of (fixUps b) l' = Some fs'" "l' \<noteq> l" for l' fs'
    proof -
      have 1: "set (fixUpsFor b l) \<inter> set fs' = {}"
      proof (cases "map_of (fixUps b) l")
        case None
        then show ?thesis by (simp add: fixUpsFor_def)
      next
        case (Some fs)
        then show ?thesis using w(4)[OF Some a(1)] a(2) by (simp add: fixUpsFor_def)
      qed
      have 2: "FixUp ?n \<notin> set fs'"
        using w(3)[OF a(1), of "FixUp ?n"] by auto
      show ?thesis using 1 2 by auto
    qed
    have x8: "length (Instruction ?x) = 8" using assms(2) by simp
    show ?thesis
    proof (rule wfBlockI[OF f i])
      show "distinct (map fst ?al)" using w(1) by (simp add: distinct_update)
    next
      fix n assume "n \<in> set (insns b @ [?x])"
      then have "n \<in> set (insns b) \<or> n = ?x" by auto
      then show "length (Instruction n) = 8" using w(2) x8 by blast
    next
      fix la fs f
      assume a: "map_of ?al la = Some fs" and f: "f \<in> set fs"
      have "origInsnIdx f < Suc ?n"
      proof (cases "la = l")
        case True
        then have "fs = ?fs" using a m by simp
        then show ?thesis using f old by (auto simp: less_SucI)
      next
        case False
        then have "map_of (fixUps b) la = Some fs" using a m by simp
        then show ?thesis using w(3) f by (auto simp: less_SucI)
      qed
      then show "origInsnIdx f < length (insns b @ [?x])" by simp
    next
      fix la l' fs fs'
      assume "map_of ?al la = Some fs" "map_of ?al l' = Some fs'" and 3: "la \<noteq> l'"
      then have 1: "((map_of (fixUps b))(l \<mapsto> ?fs)) la = Some fs"
        and 2: "((map_of (fixUps b))(l \<mapsto> ?fs)) l' = Some fs'"
        using m by simp_all
      show "set fs \<inter> set fs' = {}"
      proof (cases "la = l")
        case True
        then have "fs = ?fs" "map_of (fixUps b) l' = Some fs'" "l' \<noteq> l" using 1 2 3 by auto
        then show ?thesis using disj by blast
      next
        case False
        note nl = this
        show ?thesis
        proof (cases "l' = l")
          case True
          then have "fs' = ?fs" "map_of (fixUps b) la = Some fs" using 1 2 nl by auto
          then show ?thesis using disj[of la fs] nl by blast
        next
          case False
          then have "map_of (fixUps b) la = Some fs" "map_of (fixUps b) l' = Some fs'"
            using 1 2 nl by auto
          then show ?thesis using w(4) 3 by blast
        qed
      qed
    qed
  qed
qed

lemma wfBlock_NewBlock: "wfBlock (NewBlock dbg)"
  by (simp add: wfBlock_def NewBlock_def)

lemma wfBlock_JumpNoTrampoline: "wfBlock b \<Longrightarrow> wfBlock (JumpNoTrampoline l b)"
  unfolding JumpNoTrampoline_def by (rule wfBlock_addNoTrampoline) simp_all

lemma wfBlock_relay_fold:
  "wfBlock b \<Longrightarrow>
   wfBlock (fold (\<lambda>label b. JumpNoTrampoline label (LabelNextInsn label b)) ls b)"
  by (induction ls arbitrary: b) (simp_all add: wfBlock_JumpNoTrampoline wfBlock_LabelNextInsn)

lemma wfBlock_writeTrampoline:
  assumes "wfBlock b"
  shows "wfBlock (writeTrampoline b)"
proof -
  let ?b1 = "b\<lparr>lastTrampolineAddr := length (insns b)\<rparr>"
  have 1: "wfBlock ?b1" using assms wfBlock_cong[of ?b1 b] by simp
  show ?thesis
  proof (cases "length (fixUps b) = 0")
    case True
    then show ?thesis using 1 by (simp add: writeTrampoline_def)
  next
    case False
    let ?b2 = "b\<lparr>lastTrampolineAddr := length (insns b), trampolineIdx := trampolineIdx b + 1\<rparr>"
    let ?e = "''skip-trampoline-'' @ decimal (trampolineIdx b)"
    let ?b4 = "fold (\<lambda>label b. JumpNoTrampoline label (LabelNextInsn label b))
                 (sort (map fst (fixUps b))) (JumpNoTrampoline ?e ?b2)"
    have w: "writeTrampoline b = LabelNextInsn ?e ?b4"
      using False by (simp add: writeTrampoline_def Let_def)
    have 2: "wfBlock ?b2" using assms wfBlock_cong[of ?b2 b] by simp
    show ?thesis
      unfolding w
      by (intro wfBlock_LabelNextInsn wfBlock_relay_fold wfBlock_JumpNoTrampoline 2)
  qed
qed

lemma wfBlock_maybeWriteTrampoline: "wfBlock b \<Longrightarrow> wfBlock (maybeWriteTrampoline n b)"
  by (simp add: maybeWriteTrampoline_def wfBlock_writeTrampoline)

lemma wfBlock_addInsnWithOffsetFixup:
  "wfBlock b \<Longrightarrow> length (Instruction n) = 8 \<Longrightarrow> wfBlock (addInsnWithOffsetFixup n l b)"
  unfolding addInsnWithOffsetFixup_def
  by (intro wfBlock_addNoTrampoline wfBlock_maybeWriteTrampoline)

lemma wfBlock_exec: "wfBlock b \<Longrightarrow> wfBlock (exec c b)"
proof (cases c)
  case (CallInstr opcode dst src offset imm a)
  assume "wfBlock b"
  then show ?thesis
    unfolding CallInstr exec.simps Instr_def add_def addInsn_def
    by (rule wfBlock_addInsnWithOffsetFixup) simp
next
  case (CallInstrWithOffsetFixup opcode dst src l imm)
  assume "wfBlock b"
  then show ?thesis
    unfolding CallInstrWithOffsetFixup exec.simps InstrWithOffsetFixup_def addWithOffsetFixup_def
    by (rule wfBlock_addInsnWithOffsetFixup) simp
next
  case (CallJumpNoTrampoline l)
  assume "wfBlock b"
  then show ?thesis unfolding CallJumpNoTrampoline exec.simps by (rule wfBlock_JumpNoTrampoline)
next
  case (CallLabelNextInsn l)
  assume "wfBlock b"
  then show ?thesis unfolding CallLabelNextInsn exec.simps by (rule wfBlock_LabelNextInsn)
next
  case (CallAddComment c)
  assume "wfBlock b"
  then show ?thesis
    using wfBlock_cong[of "AddComment c b" b] unfolding CallAddComment exec.simps
    by (simp add: AddComment_def)
next
  case (CallSetTrampolinesEnabled en)
  assume "wfBlock b"
  then show ?thesis
    using wfBlock_cong[of "SetTrampolinesEnabled en b" b] unfolding CallSetTrampolinesEnabled exec.simps
    by (simp add: SetTrampolinesEnabled_def)
next
  case (CallSetTrampolineStride s)
  assume "wfBlock b"
  then show ?thesis
    using wfBlock_cong[of "SetTrampolineStride s b" b] unfolding CallSetTrampolineStride exec.simps
    by (simp add: SetTrampolineStride_def)
qed

lemma run_wfBlock: "wfBlock b \<Longrightarrow> wfBlock (run cs b)"
  by (induction cs arbitrary: b) (simp_all add: wfBlock_exec)

subsection \<open>The deferred error\<close>

lemma latched_refl [simp]: "latched b b"
  by (simp add: latched_def)

lemma latched_trans: "latched a b \<Longrightarrow> latched b c \<Longrightarrow> latched a c"
  unfolding latched_def by auto

lemma latched_same: "deferredErr b' = deferredErr b \<Longrightarrow> latched b b'"
  by (simp add: latched_def)

lemma LabelNextInsn_deferredErr:
  "deferredErr (LabelNextInsn l b) =
     (case deferredErr b of
        Some e \<Rightarrow> Some e
      | None \<Rightarrow>
          (case snd (applyFixUps l
                 (b\<lparr>labelToInsnIdx := (labelToInsnIdx b)(l \<mapsto> length (insns b)),
                    insnIdxToLabels := (insnIdxToLabels b)
                      (length (insns b) \<mapsto> labelsAt b (length (insns b)) @ [l])\<rparr>)) of
             None \<Rightarrow> None
           | Some err \<Rightarrow> Some (FixUpsFailed l (length (insns b)) err)))"
  unfolding LabelNextInsn_unfold Let_def
  by (simp add: applyFixUps_fields split: option.splits)

lemma LabelNextInsn_error_range:
  assumes "snd (applyFixUps l
                 (b\<lparr>labelToInsnIdx := (labelToInsnIdx b)(l \<mapsto> length (insns b)),
                    insnIdxToLabels := (insnIdxToLabels b)
                      (length (insns b) \<mapsto> labelsAt b (length (insns b)) @ [l])\<rparr>)) = Some err"
  shows "isRangeError err"
proof -
  let ?b2 = "b\<lparr>labelToInsnIdx := (labelToInsnIdx b)(l \<mapsto> length (insns b)),
                    insnIdxToLabels := (insnIdxToLabels b)
                      (length (insns b) \<mapsto> labelsAt b (length (insns b)) @ [l])\<rparr>"
  have "labelToInsnIdx ?b2 l = Some (length (insns b))" by simp
  from loop_error_range[OF this] assms show ?thesis
    by (simp add: applyFixUps_snd)
qed

lemma latched_LabelNextInsn: "latched b (LabelNextInsn l b)"
  unfolding latched_def LabelNextInsn_deferredErr
  using LabelNextInsn_error_range[of l b]
  by (auto split: option.splits)

lemma deferredErr_addNoTrampoline [simp]:
  "deferredErr (addInsnWithOffsetFixupNoTrampoline insn l b) = deferredErr b"
  by (simp add: addInsnWithOffsetFixupNoTrampoline_def Let_def)

lemma latched_JumpNoTrampoline: "latched b (JumpNoTrampoline l b)"
  by (simp add: latched_same JumpNoTrampoline_def)

lemma latched_relay_fold:
  "latched b (fold (\<lambda>label b. JumpNoTrampoline label (LabelNextInsn label b)) ls b)"
proof (induction ls arbitrary: b)
  case Nil
  then show ?case by simp
next
  case (Cons l ls)
  have "latched b (JumpNoTrampoline l (LabelNextInsn l b))"
    by (rule latched_trans[OF latched_LabelNextInsn latched_JumpNoTrampoline])
  then show ?case using Cons.IH latched_trans by fastforce
qed

lemma latched_writeTrampoline: "latched b (writeTrampoline b)"
proof (cases "length (fixUps b) = 0")
  case True
  then show ?thesis by (simp add: writeTrampoline_def latched_same)
next
  case False
  let ?b2 = "b\<lparr>lastTrampolineAddr := length (insns b), trampolineIdx := trampolineIdx b + 1\<rparr>"
  let ?e = "''skip-trampoline-'' @ decimal (trampolineIdx b)"
  let ?b3 = "JumpNoTrampoline ?e ?b2"
  let ?b4 = "fold (\<lambda>label b. JumpNoTrampoline label (LabelNextInsn label b))
                 (sort (map fst (fixUps b))) ?b3"
  have w: "writeTrampoline b = LabelNextInsn ?e ?b4"
    using False by (simp add: writeTrampoline_def Let_def)
  have 1: "latched b ?b2" by (simp add: latched_same)
  have 2: "latched ?b2 ?b3" by (rule latched_JumpNoTrampoline)
  have 3: "latched ?b3 ?b4" by (rule latched_relay_fold)
  have 4: "latched ?b4 (LabelNextInsn ?e ?b4)" by (rule latched_LabelNextInsn)
  show ?thesis unfolding w
    by (rule latched_trans[OF latched_trans[OF latched_trans[OF 1 2] 3] 4])
qed

lemma latched_maybeWriteTrampoline: "latched b (maybeWriteTrampoline n b)"
  by (simp add: maybeWriteTrampoline_def latched_writeTrampoline)

lemma latched_addInsnWithOffsetFixup: "latched b (addInsnWithOffsetFixup n l b)"
  unfolding addInsnWithOffsetFixup_def
  by (rule latched_trans[OF latched_maybeWriteTrampoline[of b n]]) (simp add: latched_same)

lemma latched_exec: "latched b (exec c b)"
  by (cases c)
     (simp_all add: Instr_def add_def addInsn_def InstrWithOffsetFixup_def addWithOffsetFixup_def
        latched_addInsnWithOffsetFixup latched_JumpNoTrampoline latched_LabelNextInsn
        AddComment_def SetTrampolinesEnabled_def
        SetTrampolineStride_def latched_same)

lemma latched_run: "latched b (run cs b)"
proof (induction cs arbitrary: b)
  case Nil
  then show ?case by simp
next
  case (Cons c cs)
  show ?case using latched_trans[OF latched_exec[of b c] Cons.IH[of "exec c b"]] by simp
qed

section \<open>The final resolution pass of Assemble\<close>

lemma applyFixUps_ok_iff: "snd (applyFixUps l b) = None \<longleftrightarrow> resolvable b l"
proof (cases "labelToInsnIdx b l")
  case None
  then show ?thesis
    by (auto simp: applyFixUps_snd loop_unbound resolvable_def)
next
  case (Some t)
  then show ?thesis
    by (simp add: applyFixUps_snd loop_ok_iff[OF Some] resolvable_def)
qed

lemma applyFixUps_error:
  assumes "snd (applyFixUps l b) = Some e"
  shows "(e = MissingLabel l \<and> labelToInsnIdx b l = None \<and> fixUpsFor b l \<noteq> []) \<or>
         (isRangeError e \<and> labelToInsnIdx b l \<noteq> None)"
proof (cases "labelToInsnIdx b l")
  case None
  then show ?thesis using assms by (auto simp: applyFixUps_snd loop_unbound split: if_splits)
next
  case (Some t)
  then show ?thesis using assms loop_error_range[OF Some] by (auto simp: applyFixUps_snd)
qed

lemma fixUpsFor_applyFixUps:
  "snd (applyFixUps l b) = None \<Longrightarrow>
   fixUpsFor (fst (applyFixUps l b)) l' = (if l' = l then [] else fixUpsFor b l')"
  by (simp add: fixUpsFor_def applyFixUps_fixUps delete_conv')

lemma resolvable_applyFixUps:
  "snd (applyFixUps l b) = None \<Longrightarrow>
   resolvable (fst (applyFixUps l b)) l' \<longleftrightarrow> (l' = l \<or> resolvable b l')"
  by (auto simp: resolvable_def fixUpsFor_applyFixUps applyFixUps_fields)

lemma Assemble_loop_ok_iff:
  "snd (Assemble_loop ks b) = None \<longleftrightarrow> (\<forall>l \<in> set ks. resolvable b l)"
proof (induction ks arbitrary: b)
  case Nil
  then show ?case by simp
next
  case (Cons l ks)
  obtain b' e where r: "applyFixUps l b = (b', e)" by (cases "applyFixUps l b")
  show ?case
  proof (cases e)
    case (Some err)
    then have "\<not> resolvable b l" using r applyFixUps_ok_iff[of l b] by simp
    then show ?thesis using r Some by simp
  next
    case None
    then have ok: "snd (applyFixUps l b) = None" using r by simp
    then have 1: "resolvable b l" by (simp add: applyFixUps_ok_iff)
    have 2: "resolvable b' l' \<longleftrightarrow> (l' = l \<or> resolvable b l')" for l'
      using resolvable_applyFixUps[OF ok, of l'] r by simp
    show ?thesis using r None Cons.IH[of b'] 1 2 by auto
  qed
qed

lemma Assemble_loop_error:
  "snd (Assemble_loop ks b) = Some e \<Longrightarrow>
   \<exists>l \<in> set ks. (e = MissingLabel l \<and> labelToInsnIdx b l = None \<and> fixUpsFor b l \<noteq> []) \<or>
               (isRangeError e \<and> labelToInsnIdx b l \<noteq> None)"
proof (induction ks arbitrary: b)
  case Nil
  then show ?case by simp
next
  case (Cons l ks)
  obtain b' e' where r: "applyFixUps l b = (b', e')" by (cases "applyFixUps l b")
  show ?case
  proof (cases e')
    case (Some err)
    then have "e = err" using Cons.prems r by simp
    then show ?thesis using applyFixUps_error[of l b err] r Some by auto
  next
    case None
    then have ok: "snd (applyFixUps l b) = None" using r by simp
    have s: "snd (Assemble_loop ks b') = Some e" using Cons.prems r None by simp
    obtain l' where l': "l' \<in> set ks"
      "(e = MissingLabel l' \<and> labelToInsnIdx b' l' = None \<and> fixUpsFor b' l' \<noteq> []) \<or>
               (isRangeError e \<and> labelToInsnIdx b' l' \<noteq> None)"
      using Cons.IH[OF s] by blast
    have lb: "labelToInsnIdx b' = labelToInsnIdx b"
      using applyFixUps_fields(1)[of l b] r by simp
    have fb: "fixUpsFor b' l' \<noteq> [] \<Longrightarrow> fixUpsFor b' l' = fixUpsFor b l'"
      using fixUpsFor_applyFixUps[OF ok, of l'] r by (auto split: if_splits)
    show ?thesis using l' lb fb by auto
  qed
qed

lemma Assemble_loop_length:
  "length (insns (fst (Assemble_loop ks b))) = length (insns b)"
  using Assemble_loop_map[of "\<lambda>_. ()" ks b] by (metis length_map)

lemma Assemble_loop_Cons_fst:
  "fst (Assemble_loop (l # ks) b) =
     (if snd (applyFixUps l b) = None then fst (Assemble_loop ks (fst (applyFixUps l b)))
      else fst (applyFixUps l b))"
  by (cases "applyFixUps l b") (auto split: option.splits)

lemma Assemble_loop_labelToInsnIdx:
  "labelToInsnIdx (fst (Assemble_loop ks b)) = labelToInsnIdx b"
  by (induction ks arbitrary: b) (simp_all add: Assemble_loop_Cons_fst applyFixUps_fields del: Assemble_loop.simps(2))

lemma Assemble_loop_insnIdxToLabels:
  "insnIdxToLabels (fst (Assemble_loop ks b)) = insnIdxToLabels b"
  by (induction ks arbitrary: b) (simp_all add: Assemble_loop_Cons_fst applyFixUps_fields del: Assemble_loop.simps(2))

lemma Assemble_loop_insnIdxToComments:
  "insnIdxToComments (fst (Assemble_loop ks b)) = insnIdxToComments b"
  by (induction ks arbitrary: b) (simp_all add: Assemble_loop_Cons_fst applyFixUps_fields del: Assemble_loop.simps(2))

lemma Assemble_loop_policyDebugEnabled:
  "policyDebugEnabled (fst (Assemble_loop ks b)) = policyDebugEnabled b"
  by (induction ks arbitrary: b) (simp_all add: Assemble_loop_Cons_fst applyFixUps_fields del: Assemble_loop.simps(2))

lemma FixUp_image: "i \<in> origInsnIdx ` set fs \<longleftrightarrow> FixUp i \<in> set fs"
  by (metis fixUp.collapse fixUp.sel image_iff)

lemma fixUpsFor_cases:
  "f \<in> set (fixUpsFor b l) \<Longrightarrow> \<exists>fs. map_of (fixUps b) l = Some fs \<and> f \<in> set fs"
  by (cases "map_of (fixUps b) l") (auto simp: fixUpsFor_def)

lemma wfBlock_fixUpsFor_range:
  "wfBlock b \<Longrightarrow> f \<in> set (fixUpsFor b l) \<Longrightarrow> origInsnIdx f < length (insns b)"
  using fixUpsFor_cases wfBlockD(3) by blast

lemma wfBlock_fixUpsFor_disjoint:
  assumes "wfBlock b" and "l \<noteq> l'" and "f \<in> set (fixUpsFor b l)"
  shows "f \<notin> set (fixUpsFor b l')"
proof
  assume "f \<in> set (fixUpsFor b l')"
  then obtain fs' where 1: "map_of (fixUps b) l' = Some fs'" "f \<in> set fs'"
    using fixUpsFor_cases by blast
  obtain fs where 2: "map_of (fixUps b) l = Some fs" "f \<in> set fs"
    using fixUpsFor_cases[OF assms(3)] by blast
  have "set fs \<inter> set fs' = {}" by (rule wfBlockD(4)[OF assms(1) 2(1) 1(1) assms(2)])
  then show False using 1(2) 2(2) by blast
qed

lemma applyFixUps_nth:
  assumes "snd (applyFixUps l b) = None"
  shows "insns (fst (applyFixUps l b)) ! i =
     (if FixUp i \<in> set (fixUpsFor b l) \<and> i < length (insns b)
      then putOffset (insns b ! i) (word_of_int (int (the (labelToInsnIdx b l)) - int i - 1))
      else insns b ! i)"
proof (cases "labelToInsnIdx b l")
  case None
  then have "fixUpsFor b l = []"
    using assms by (auto simp: applyFixUps_snd loop_unbound split: if_splits)
  then show ?thesis by (simp add: applyFixUps_insns)
next
  case (Some t)
  have ok: "snd (applyFixUps_loop l (fixUpsFor b l) b) = None"
    using assms by (simp add: applyFixUps_snd)
  show ?thesis
    using loop_result_nth[OF Some ok, of i] Some
    by (simp add: applyFixUps_insns FixUp_image)
qed

lemma Assemble_loop_nth_other:
  "snd (Assemble_loop ks b) = None \<Longrightarrow> (\<forall>l \<in> set ks. FixUp i \<notin> set (fixUpsFor b l)) \<Longrightarrow>
   insns (fst (Assemble_loop ks b)) ! i = insns b ! i"
proof (induction ks arbitrary: b)
  case Nil
  then show ?case by simp
next
  case (Cons l ks)
  let ?b' = "fst (applyFixUps l b)"
  have ok: "snd (applyFixUps l b) = None"
    using Cons.prems(1) by (cases "applyFixUps l b") (auto split: option.splits)
  have rest: "snd (Assemble_loop ks ?b') = None"
    using Cons.prems(1) ok by (cases "applyFixUps l b") (auto split: option.splits)
  have 1: "insns ?b' ! i = insns b ! i"
    using applyFixUps_nth[OF ok, of i] Cons.prems(2) by simp
  have 2: "\<forall>l' \<in> set ks. FixUp i \<notin> set (fixUpsFor ?b' l')"
    using Cons.prems(2) by (simp add: fixUpsFor_applyFixUps[OF ok])
  have "insns (fst (Assemble_loop ks ?b')) ! i = insns ?b' ! i"
    by (rule Cons.IH[OF rest 2])
  then show ?case using 1 ok by (simp add: Assemble_loop_Cons_fst del: Assemble_loop.simps(2))
qed

lemma Assemble_loop_nth_patched:
  "wfBlock b \<Longrightarrow> snd (Assemble_loop ks b) = None \<Longrightarrow> l \<in> set ks \<Longrightarrow>
   FixUp i \<in> set (fixUpsFor b l) \<Longrightarrow>
   insns (fst (Assemble_loop ks b)) ! i =
     putOffset (insns b ! i) (word_of_int (int (the (labelToInsnIdx b l)) - int i - 1))"
proof (induction ks arbitrary: b)
  case Nil
  then show ?case by simp
next
  case (Cons l0 ks)
  let ?b' = "fst (applyFixUps l0 b)"
  have ok: "snd (applyFixUps l0 b) = None"
    using Cons.prems(2) by (cases "applyFixUps l0 b") (auto split: option.splits)
  have rest: "snd (Assemble_loop ks ?b') = None"
    using Cons.prems(2) ok by (cases "applyFixUps l0 b") (auto split: option.splits)
  have wf': "wfBlock ?b'" using Cons.prems(1) by (rule wfBlock_applyFixUps)
  have lt: "i < length (insns b)"
    using wfBlock_fixUpsFor_range[OF Cons.prems(1) Cons.prems(4)] by simp
  have res: "insns (fst (Assemble_loop (l0 # ks) b)) ! i = insns (fst (Assemble_loop ks ?b')) ! i"
    using ok by (simp add: Assemble_loop_Cons_fst del: Assemble_loop.simps(2))
  show ?case
  proof (cases "l = l0")
    case True
    have 1: "insns ?b' ! i =
        putOffset (insns b ! i) (word_of_int (int (the (labelToInsnIdx b l)) - int i - 1))"
      using applyFixUps_nth[OF ok, of i] Cons.prems(4) lt True by simp
    have 2: "\<forall>l' \<in> set ks. FixUp i \<notin> set (fixUpsFor ?b' l')"
    proof
      fix l' assume "l' \<in> set ks"
      show "FixUp i \<notin> set (fixUpsFor ?b' l')"
      proof (cases "l' = l0")
        case True
        then show ?thesis by (simp add: fixUpsFor_applyFixUps[OF ok])
      next
        case False
        then have "FixUp i \<notin> set (fixUpsFor b l')"
          using wfBlock_fixUpsFor_disjoint[OF Cons.prems(1) _ Cons.prems(4), of l'] True by auto
        then show ?thesis using False by (simp add: fixUpsFor_applyFixUps[OF ok])
      qed
    qed
    show ?thesis
      unfolding res using Assemble_loop_nth_other[OF rest 2] 1 by simp
  next
    case False
    then have in_ks: "l \<in> set ks" using Cons.prems(3) by simp
    have f': "FixUp i \<in> set (fixUpsFor ?b' l)"
      using Cons.prems(4) False by (simp add: fixUpsFor_applyFixUps[OF ok])
    have nl0: "FixUp i \<notin> set (fixUpsFor b l0)"
      using wfBlock_fixUpsFor_disjoint[OF Cons.prems(1) False Cons.prems(4)] .
    have 1: "insns ?b' ! i = insns b ! i"
      using applyFixUps_nth[OF ok, of i] nl0 by simp
    have "insns (fst (Assemble_loop ks ?b')) ! i =
        putOffset (insns ?b' ! i) (word_of_int (int (the (labelToInsnIdx ?b' l)) - int i - 1))"
      by (rule Cons.IH[OF wf' rest in_ks f'])
    then show ?thesis unfolding res using 1 by (simp add: applyFixUps_fields)
  qed
qed

lemma Assemble_deferred: "deferredErr b = Some e \<Longrightarrow> Assemble b = Inl e"
  by (simp add: Assemble_def)

lemma Assemble_no_deferred:
  "deferredErr b = None \<Longrightarrow>
   Assemble b =
     (case snd (Assemble_loop (map fst (fixUps b)) b) of
        Some err \<Rightarrow> Inl err
      | None \<Rightarrow> Inr (if policyDebugEnabled b
                      then addDebugInfo (fst (Assemble_loop (map fst (fixUps b)) b))
                      else insns (fst (Assemble_loop (map fst (fixUps b)) b))))"
  by (cases "Assemble_loop (map fst (fixUps b)) b")
     (auto simp: Assemble_def Assemble_loop_policyDebugEnabled[of "map fst (fixUps b)" b, symmetric]
           split: option.splits)

lemma Assemble_InrD:
  assumes "Assemble b = Inr prog"
  shows "deferredErr b = None"
    and "snd (Assemble_loop (map fst (fixUps b)) b) = None"
    and "map Instruction prog = map Instruction (insns (fst (Assemble_loop (map fst (fixUps b)) b)))"
proof -
  show d: "deferredErr b = None"
    using assms by (cases "deferredErr b") (simp_all add: Assemble_def)
  show s: "snd (Assemble_loop (map fst (fixUps b)) b) = None"
    using assms Assemble_no_deferred[OF d] by (simp split: option.splits)
  let ?b' = "fst (Assemble_loop (map fst (fixUps b)) b)"
  have "prog = (if policyDebugEnabled b then addDebugInfo ?b' else insns ?b')"
    using assms Assemble_no_deferred[OF d] s by simp
  then show "map Instruction prog = map Instruction (insns ?b')"
    using addDebugInfo_map[of Instruction ?b'] by simp
qed

lemma Assemble_ok_iff:
  "deferredErr b = None \<Longrightarrow>
   (\<exists>prog. Assemble b = Inr prog) \<longleftrightarrow> (\<forall>l \<in> fst ` set (fixUps b). resolvable b l)"
  using Assemble_loop_ok_iff[of "map fst (fixUps b)" b]
  by (auto simp: Assemble_no_deferred split: option.splits)

lemma Assemble_error:
  assumes "deferredErr b = None" and "Assemble b = Inl e"
  shows "\<exists>l \<in> fst ` set (fixUps b).
           (e = MissingLabel l \<and> labelToInsnIdx b l = None \<and> fixUpsFor b l \<noteq> []) \<or>
           (isRangeError e \<and> labelToInsnIdx b l \<noteq> None)"
proof -
  have "snd (Assemble_loop (map fst (fixUps b)) b) = Some e"
    using assms by (simp add: Assemble_no_deferred split: option.splits)
  from Assemble_loop_error[OF this] show ?thesis by simp
qed

lemma Off_Instruction: "Instruction n = Instruction n' \<Longrightarrow> Off n = Off n'"
  by (simp add: Off_def)

lemma Assemble_resolved:
  assumes wf: "wfBlock b" and a: "Assemble b = Inr prog"
  shows "length prog = length (insns b)"
    and "\<And>l f. l \<in> fst ` set (fixUps b) \<Longrightarrow> f \<in> set (fixUpsFor b l) \<Longrightarrow>
           \<exists>t. labelToInsnIdx b l = Some t \<and>
               sint (Off (prog ! origInsnIdx f)) = int t - int (origInsnIdx f) - 1"
    and "\<And>i. i < length prog \<Longrightarrow> \<forall>l \<in> fst ` set (fixUps b). FixUp i \<notin> set (fixUpsFor b l) \<Longrightarrow>
           Instruction (prog ! i) = Instruction (insns b ! i)"
proof -
  let ?ks = "map fst (fixUps b)"
  let ?b' = "fst (Assemble_loop ?ks b)"
  note d = Assemble_InrD[OF a]
  have len': "length (insns ?b') = length (insns b)" by (rule Assemble_loop_length)
  show len: "length prog = length (insns b)"
    using arg_cong[OF d(3), of length] len' by simp
  have nth: "Instruction (prog ! i) = Instruction (insns ?b' ! i)" if "i < length (insns b)" for i
  proof -
    have "Instruction (prog ! i) = map Instruction prog ! i" using that len by simp
    also have "\<dots> = map Instruction (insns ?b') ! i" by (simp only: d(3))
    also have "\<dots> = Instruction (insns ?b' ! i)" using that len' by simp
    finally show ?thesis .
  qed
  {
    fix l f assume l: "l \<in> fst ` set (fixUps b)" and f: "f \<in> set (fixUpsFor b l)"
    let ?i = "origInsnIdx f"
    have lk: "l \<in> set ?ks" using l by simp
    have "resolvable b l" using d(2) Assemble_loop_ok_iff[of ?ks b] lk by blast
    then obtain t where t: "labelToInsnIdx b l = Some t"
        "- 32768 \<le> int t - int ?i - 1" "int t - int ?i - 1 \<le> 32767"
      using f unfolding resolvable_def by blast
    have lt: "?i < length (insns b)" by (rule wfBlock_fixUpsFor_range[OF wf f])
    have l8: "length (Instruction (insns b ! ?i)) = 8" using wfBlockD(2)[OF wf] lt by simp
    have fi: "FixUp ?i \<in> set (fixUpsFor b l)" using f by simp
    have "insns ?b' ! ?i = putOffset (insns b ! ?i) (word_of_int (int t - int ?i - 1))"
      using Assemble_loop_nth_patched[OF wf d(2) lk fi] t(1) by simp
    then have "Instruction (prog ! ?i) =
        Instruction (putOffset (insns b ! ?i) (word_of_int (int t - int ?i - 1)))"
      using nth[OF lt] by simp
    then have "Off (prog ! ?i) = Off (putOffset (insns b ! ?i) (word_of_int (int t - int ?i - 1)))"
      by (rule Off_Instruction)
    also have "\<dots> = word_of_int (int t - int ?i - 1)" using l8 by (simp add: Off_putOffset)
    finally have "sint (Off (prog ! ?i)) = int t - int ?i - 1"
      using sint_offset[OF t(2,3)] by simp
    then show "\<exists>t. labelToInsnIdx b l = Some t \<and>
               sint (Off (prog ! origInsnIdx f)) = int t - int (origInsnIdx f) - 1"
      using t(1) by blast
  }
  {
    fix i assume i: "i < length prog"
      and no: "\<forall>l \<in> fst ` set (fixUps b). FixUp i \<notin> set (fixUpsFor b l)"
    have "insns ?b' ! i = insns b ! i"
      by (rule Assemble_loop_nth_other[OF d(2)]) (use no in simp)
    then show "Instruction (prog ! i) = Instruction (insns b ! i)"
      using nth[of i] i len by simp
  }
qed

lemma wfBlock_fixupBlock: "i < n \<Longrightarrow> wfBlock (fixupBlock t i n)"
  by (simp add: wfBlock_def fixupBlock_def NewBlock_def)
section \<open>Calls that can panic\<close>

text \<open>
  \<open>buildAnnotation\<close> panics only for the opcode \<open>Call\<close>, with debug on and an immediate that is
  not an index of the table; a call that returns leaves a Block that a sequence of
  \<open>Instr\<close> calls (or none) gives as well, so what holds after every \<open>run\<close> holds after every
  \<open>runBuilder\<close> that returns.
\<close>

lemma run_append: "run (xs @ ys) b = run ys (run xs b)"
  by (induction xs arbitrary: b) simp_all

lemma Call_opcode: "Call = 0x85"
  by (simp add: Call_def OpClassJump64_def ALUSrcImm_def JumpOpCall_def)

lemma Call_not_mem:
  "Call \<noteq> StoreReg8" "Call \<noteq> StoreReg16" "Call \<noteq> StoreReg32" "Call \<noteq> StoreReg64"
  "Call \<noteq> LoadReg8" "Call \<noteq> LoadReg16" "Call \<noteq> LoadReg32" "Call \<noteq> LoadReg64"
  "Call \<noteq> StoreImm8" "Call \<noteq> StoreImm16" "Call \<noteq> StoreImm32" "Call \<noteq> StoreImm64"
  by (simp_all add: Call_def StoreReg8_def StoreReg16_def StoreReg32_def StoreReg64_def
      LoadReg8_def LoadReg16_def LoadReg32_def LoadReg64_def
      StoreImm8_def StoreImm16_def StoreImm32_def StoreImm64_def
      OpClassJump64_def ALUSrcImm_def JumpOpCall_def OpClassStoreReg_def OpClassLoadReg_def
      OpClassStoreImm_def MemOpModeMem_def MemOpModeImm_def
      MemOpSize8_def MemOpSize16_def MemOpSize32_def MemOpSize64_def)

lemma Load_not_Call: "OpClassLoadReg OR MemOpModeMem OR sz \<noteq> Call"
proof
  assume a: "OpClassLoadReg OR MemOpModeMem OR sz = Call"
  have "bit (OpClassLoadReg OR MemOpModeMem OR sz) 5"
    by (simp add: bit_simps OpClassLoadReg_def MemOpModeMem_def)
  moreover have "\<not> bit Call 5"
    by (simp add: Call_opcode)
  ultimately show False using a by simp
qed

lemma buildAnnotation_Inl_iff:
  "buildAnnotation regString HelperString opcode src dst fo imm b = Inl p \<longleftrightarrow>
     policyDebugEnabled b \<and> opcode = Call \<and>
     (sint imm < 0 \<or> int (length HelperString) \<le> sint imm) \<and>
     p = IndexOutOfRange (sint imm) (length HelperString)"
  using Call_not_mem by (auto simp: buildAnnotation_def Let_def)

lemma buildAnnotation_cases:
  obtains (Panic) "policyDebugEnabled b" "opcode = Call"
      "sint imm < 0 \<or> int (length HelperString) \<le> sint imm"
      "buildAnnotation regString HelperString opcode src dst fo imm b
         = Inl (IndexOutOfRange (sint imm) (length HelperString))"
  | (Ok) a where "buildAnnotation regString HelperString opcode src dst fo imm b = Inr a"
      "policyDebugEnabled b \<and> opcode = Call \<longrightarrow> 0 \<le> sint imm \<and> sint imm < int (length HelperString)"
proof (cases "buildAnnotation regString HelperString opcode src dst fo imm b")
  case (Inl p)
  then show ?thesis using Panic buildAnnotation_Inl_iff[of regString HelperString opcode src dst fo imm b p]
    by simp
next
  case (Inr a)
  have "\<not> (policyDebugEnabled b \<and> opcode = Call \<and>
     (sint imm < 0 \<or> int (length HelperString) \<le> sint imm))"
    using Inr buildAnnotation_Inl_iff[of regString HelperString opcode src dst fo imm b
        "IndexOutOfRange (sint imm) (length HelperString)"] by auto
  then show ?thesis using Ok[OF Inr] by auto
qed

lemma Block_Call_eq:
  "Block_Call regString HelperString helperID b =
     (if policyDebugEnabled b
      then (if 0 \<le> sint helperID \<and> sint helperID < int (length HelperString)
            then Inr (add Call 0 0 0 helperID (''call '' @ HelperString ! nat (sint helperID)) b)
            else Inl (IndexOutOfRange (sint helperID) (length HelperString)))
      else Inr (add Call 0 0 0 helperID '''' b))"
  using Call_not_mem by (simp add: Block_Call_def buildAnnotation_def Let_def)
lemma mem_method_run:
  assumes "opcode \<noteq> Call"
  shows "\<exists>a. (case buildAnnotation regString HelperString opcode ptrReg dst fo 0 b of
               Inl p \<Rightarrow> Inl p
             | Inr annotation \<Rightarrow> Inr (add opcode dst ptrReg off 0 annotation b))
            = (Inr (run [CallInstr opcode dst ptrReg off 0 a] b) :: panic + Block)"
proof (cases rule: buildAnnotation_cases[where b = b and opcode = opcode and imm = 0 and HelperString = HelperString and regString = regString and src = ptrReg and dst = dst and fo = fo])
  case Panic
  then show ?thesis using assms by simp
next
  case (Ok a)
  then show ?thesis by (auto simp: Instr_def)
qed

lemma mem_method_run_ex:
  assumes "opcode \<noteq> Call"
    and "(case buildAnnotation regString HelperString opcode ptrReg dst fo 0 b of
               Inl p \<Rightarrow> Inl p
             | Inr annotation \<Rightarrow> Inr (add opcode dst ptrReg off 0 annotation b)) = Inr b'"
  shows "\<exists>cs. b' = run cs b"
proof -
  obtain a where "(case buildAnnotation regString HelperString opcode ptrReg dst fo 0 b of
               Inl p \<Rightarrow> Inl p
             | Inr annotation \<Rightarrow> Inr (add opcode dst ptrReg off 0 annotation b))
            = (Inr (run [CallInstr opcode dst ptrReg off 0 a] b) :: panic + Block)"
    using mem_method_run[OF assms(1)] by blast
  then have "b' = run [CallInstr opcode dst ptrReg off 0 a] b" using assms(2) by simp
  then show ?thesis by blast
qed

lemma execBuilder_Inl_iff:
  "(\<exists>p. execBuilder regString HelperString maxCap c b = Inl p) \<longleftrightarrow>
     (\<exists>helperID. c = CallCall helperID \<and> policyDebugEnabled b \<and>
        (sint helperID < 0 \<or> int (length HelperString) \<le> sint helperID)) \<or>
     (\<exists>n. c = CallReserveInstructionCapacity n \<and> maxCap < n)"
proof (cases c)
  case (Plain x)
  then show ?thesis by simp
next
  case (CallLoad8 dst ptrReg fo)
  then show ?thesis
    using mem_method_run[where opcode = LoadReg8 and regString = regString and HelperString = HelperString and ptrReg = ptrReg and dst = dst and fo = fo and b = b and off = "Offset fo"] Call_not_mem
    by (auto simp: Block_Load8_def)
next
  case (CallLoad16 dst ptrReg fo)
  then show ?thesis
    using mem_method_run[where opcode = LoadReg16 and regString = regString and HelperString = HelperString and ptrReg = ptrReg and dst = dst and fo = fo and b = b and off = "Offset fo"] Call_not_mem
    by (auto simp: Block_Load16_def)
next
  case (CallLoad32 dst ptrReg fo)
  then show ?thesis
    using mem_method_run[where opcode = LoadReg32 and regString = regString and HelperString = HelperString and ptrReg = ptrReg and dst = dst and fo = fo and b = b and off = "Offset fo"] Call_not_mem
    by (auto simp: Block_Load32_def)
next
  case (CallLoad64 dst ptrReg fo)
  then show ?thesis
    using mem_method_run[where opcode = LoadReg64 and regString = regString and HelperString = HelperString and ptrReg = ptrReg and dst = dst and fo = fo and b = b and off = "Offset fo"] Call_not_mem
    by (auto simp: Block_Load64_def)
next
  case (CallLoad dst ptrReg fo sz)
  then show ?thesis
    using mem_method_run[OF Load_not_Call, where regString = regString and HelperString = HelperString and sz1 = sz and ptrReg = ptrReg and dst = dst and fo = fo and b = b and off = "Offset fo"]
    by (auto simp: Block_Load_def Let_def)
next
  case (CallStore8 dst ptrReg fo)
  then show ?thesis
    using mem_method_run[where opcode = StoreReg8 and regString = regString and HelperString = HelperString and ptrReg = ptrReg and dst = dst and fo = fo and b = b and off = "Offset fo"] Call_not_mem
    by (auto simp: Block_Store8_def)
next
  case (CallStore16 dst ptrReg fo)
  then show ?thesis
    using mem_method_run[where opcode = StoreReg16 and regString = regString and HelperString = HelperString and ptrReg = ptrReg and dst = dst and fo = fo and b = b and off = "Offset fo"] Call_not_mem
    by (auto simp: Block_Store16_def)
next
  case (CallStore32 dst ptrReg fo)
  then show ?thesis
    using mem_method_run[where opcode = StoreReg32 and regString = regString and HelperString = HelperString and ptrReg = ptrReg and dst = dst and fo = fo and b = b and off = "Offset fo"] Call_not_mem
    by (auto simp: Block_Store32_def)
next
  case (CallStore64 dst ptrReg fo)
  then show ?thesis
    using mem_method_run[where opcode = StoreReg64 and regString = regString and HelperString = HelperString and ptrReg = ptrReg and dst = dst and fo = fo and b = b and off = "Offset fo"] Call_not_mem
    by (auto simp: Block_Store64_def)
next
  case (CallCall helperID)
  then show ?thesis by (auto simp: Block_Call_eq)
next
  case (CallReserveInstructionCapacity n)
  then show ?thesis by (auto simp: ReserveInstructionCapacity_def)
qed

lemma execBuilder_run:
  assumes "execBuilder regString HelperString maxCap c b = Inr b'"
  shows "\<exists>cs. b' = run cs b"
proof (cases c)
  case (Plain x)
  then have "b' = run [x] b" using assms by simp
  then show ?thesis by blast
next
  case (CallLoad8 dst ptrReg fo)
  then show ?thesis
    using assms mem_method_run_ex[where opcode = LoadReg8 and regString = regString and HelperString = HelperString and ptrReg = ptrReg and dst = dst and fo = fo and b = b and off = "Offset fo" and b' = b'] Call_not_mem
    by (simp add: Block_Load8_def)
next
  case (CallLoad16 dst ptrReg fo)
  then show ?thesis
    using assms mem_method_run_ex[where opcode = LoadReg16 and regString = regString and HelperString = HelperString and ptrReg = ptrReg and dst = dst and fo = fo and b = b and off = "Offset fo" and b' = b'] Call_not_mem
    by (simp add: Block_Load16_def)
next
  case (CallLoad32 dst ptrReg fo)
  then show ?thesis
    using assms mem_method_run_ex[where opcode = LoadReg32 and regString = regString and HelperString = HelperString and ptrReg = ptrReg and dst = dst and fo = fo and b = b and off = "Offset fo" and b' = b'] Call_not_mem
    by (simp add: Block_Load32_def)
next
  case (CallLoad64 dst ptrReg fo)
  then show ?thesis
    using assms mem_method_run_ex[where opcode = LoadReg64 and regString = regString and HelperString = HelperString and ptrReg = ptrReg and dst = dst and fo = fo and b = b and off = "Offset fo" and b' = b'] Call_not_mem
    by (simp add: Block_Load64_def)
next
  case (CallLoad dst ptrReg fo sz)
  then show ?thesis
    using assms mem_method_run_ex[OF Load_not_Call, where regString = regString and HelperString = HelperString and sz1 = sz and ptrReg = ptrReg and dst = dst and fo = fo and b = b and off = "Offset fo" and b' = b']
    by (simp add: Block_Load_def Let_def)
next
  case (CallStore8 dst ptrReg fo)
  then show ?thesis
    using assms mem_method_run_ex[where opcode = StoreReg8 and regString = regString and HelperString = HelperString and ptrReg = ptrReg and dst = dst and fo = fo and b = b and off = "Offset fo" and b' = b'] Call_not_mem
    by (simp add: Block_Store8_def)
next
  case (CallStore16 dst ptrReg fo)
  then show ?thesis
    using assms mem_method_run_ex[where opcode = StoreReg16 and regString = regString and HelperString = HelperString and ptrReg = ptrReg and dst = dst and fo = fo and b = b and off = "Offset fo" and b' = b'] Call_not_mem
    by (simp add: Block_Store16_def)
next
  case (CallStore32 dst ptrReg fo)
  then show ?thesis
    using assms mem_method_run_ex[where opcode = StoreReg32 and regString = regString and HelperString = HelperString and ptrReg = ptrReg and dst = dst and fo = fo and b = b and off = "Offset fo" and b' = b'] Call_not_mem
    by (simp add: Block_Store32_def)
next
  case (CallStore64 dst ptrReg fo)
  then show ?thesis
    using assms mem_method_run_ex[where opcode = StoreReg64 and regString = regString and HelperString = HelperString and ptrReg = ptrReg and dst = dst and fo = fo and b = b and off = "Offset fo" and b' = b'] Call_not_mem
    by (simp add: Block_Store64_def)
next
  case (CallCall helperID)
  have "\<exists>a. b' = run [CallInstr Call 0 0 0 helperID a] b"
    using assms CallCall by (auto simp: Block_Call_eq Instr_def split: if_splits)
  then show ?thesis by blast
next
  case (CallReserveInstructionCapacity n)
  then have "b' = run [] b" using assms by (auto simp: ReserveInstructionCapacity_def split: if_splits)
  then show ?thesis by blast
qed

lemma runBuilder_run:
  "runBuilder regString HelperString maxCap cs b = Inr b' \<Longrightarrow> \<exists>cs'. b' = run cs' b"
proof (induction cs arbitrary: b)
  case Nil
  then have "b' = run [] b" by simp
  then show ?case by blast
next
  case (Cons c cs)
  then obtain b1 where 1: "execBuilder regString HelperString maxCap c b = Inr b1"
    and 2: "runBuilder regString HelperString maxCap cs b1 = Inr b'"
    by (auto split: sum.splits)
  obtain xs where xs: "b1 = run xs b" using execBuilder_run[OF 1] by blast
  obtain ys where ys: "b' = run ys b1" using Cons.IH[OF 2] by blast
  have "b' = run (xs @ ys) b" using xs ys by (simp add: run_append)
  then show ?case by blast
qed

lemma runBuilder_Plain: "runBuilder regString HelperString maxCap (map Plain cs) b = Inr (run cs b)"
  by (induction cs arbitrary: b) simp_all

section \<open>The error policy\<close>

text \<open>
  C7, as stated, fails in its first clause: a builder call can raise. With policy debug
  on, \<^verbatim>\<open>Call\<close> indexes the table of helper names with the helper id, and an id that is
  not an index of the table is a run-time panic: -1 whatever the table, 3 for a table of
  three names.
\<close>

theorem builder_call_raises_counterexample:
  "Block_Call exampleRegString exampleHelperString (- 1) (NewBlock True)
     = Inl (IndexOutOfRange (- 1) 3) \<and>
   Block_Call exampleRegString exampleHelperString 3 (NewBlock True)
     = Inl (IndexOutOfRange 3 3)"
  by (simp add: Block_Call_eq exampleHelperString_def NewBlock_def)

text \<open>
  C7, amended. No builder call returns an error value, and on a Block made by
  \<open>NewBlock\<close> a call raises in two cases only: \<^verbatim>\<open>Call\<close> with policy debug on and a
  helper id that is not an index of the table of helper names, and
  \<^verbatim>\<open>ReserveInstructionCapacity\<close> with a capacity beyond what \<^verbatim>\<open>make\<close> allocates. The
  calls that return keep the Block well-formed, so every fixup they resolve names an
  instruction that exists. After every call sequence that returns, and after every
  sequence of the calls that cannot raise: a deferred error, once set, is what the Block
  holds and what \<open>Assemble\<close> returns, with no program, whatever calls follow. It is set
  only where it is unset, by a \<open>LabelNextInsn\<close> whose fixup resolution fails (an
  out-of-range offset: the label is bound by then, so it is never a missing label), to
  that error wrapped with the label and the position; appending an instruction never
  changes it. \<open>Assemble\<close> returns an error and no program, or a program: then no error
  was deferred, the program has the instructions of the Block, every fixup still
  outstanding has been written (the offset field reads \<open>t - i - 1\<close>) and the other
  instructions have the bytes they had.
\<close>

theorem builder_error_policy:
  "(\<forall>regString HelperString maxCap c.
       (\<exists>p. execBuilder regString HelperString maxCap c b = Inl p) \<longleftrightarrow>
       (\<exists>helperID. c = CallCall helperID \<and> policyDebugEnabled b \<and>
          (sint helperID < 0 \<or> int (length HelperString) \<le> sint helperID)) \<or>
       (\<exists>n. c = CallReserveInstructionCapacity n \<and> maxCap < n))
   \<and> (\<forall>regString HelperString maxCap cs b'.
         runBuilder regString HelperString maxCap cs b = Inr b' \<longrightarrow>
           (\<forall>e. deferredErr b = Some e \<longrightarrow> deferredErr b' = Some e \<and> Assemble b' = Inl e) \<and>
           (deferredErr b = None \<longrightarrow>
              deferredErr b' = None \<or>
              (\<exists>l n err. deferredErr b' = Some (FixUpsFailed l n err) \<and> isRangeError err)))
   \<and> (wfBlock b \<longrightarrow>
       (\<forall>regString HelperString maxCap cs b'.
          runBuilder regString HelperString maxCap cs b = Inr b' \<longrightarrow> wfBlock b'))
   \<and> (\<forall>e. deferredErr b = Some e \<longrightarrow>
       (\<forall>cs. deferredErr (run cs b) = Some e \<and> Assemble (run cs b) = Inl e))
   \<and> (deferredErr b = None \<longrightarrow>
       (\<forall>cs. deferredErr (run cs b) = None \<or>
             (\<exists>l n err. deferredErr (run cs b) = Some (FixUpsFailed l n err) \<and> isRangeError err)))
   \<and> deferredErr (LabelNextInsn l b) =
       (case deferredErr b of
          Some e \<Rightarrow> Some e
        | None \<Rightarrow>
            (case snd (applyFixUps l
                   (b\<lparr>labelToInsnIdx := (labelToInsnIdx b)(l \<mapsto> length (insns b)),
                      insnIdxToLabels := (insnIdxToLabels b)
                        (length (insns b) \<mapsto> labelsAt b (length (insns b)) @ [l])\<rparr>)) of
               None \<Rightarrow> None
             | Some err \<Rightarrow> Some (FixUpsFailed l (length (insns b)) err)))
   \<and> (\<forall>insn target. deferredErr (addInsnWithOffsetFixupNoTrampoline insn target b) = deferredErr b)
   \<and> ((\<exists>e. Assemble b = Inl e) \<or> (\<exists>prog. Assemble b = Inr prog))
   \<and> (wfBlock b \<longrightarrow>
       (\<forall>prog. Assemble b = Inr prog \<longrightarrow>
          deferredErr b = None \<and> length prog = length (insns b) \<and>
          (\<forall>l \<in> fst ` set (fixUps b). \<forall>f \<in> set (fixUpsFor b l).
              \<exists>t. labelToInsnIdx b l = Some t \<and>
                  sint (Off (prog ! origInsnIdx f)) = int t - int (origInsnIdx f) - 1) \<and>
          (\<forall>i < length prog.
              (\<forall>l \<in> fst ` set (fixUps b). FixUp i \<notin> set (fixUpsFor b l)) \<longrightarrow>
              Instruction (prog ! i) = Instruction (insns b ! i))))"
proof -
  have A: "deferredErr (run cs b) = Some e \<and> Assemble (run cs b) = Inl e"
    if "deferredErr b = Some e" for e cs
  proof -
    have "deferredErr (run cs b) = Some e"
      using latched_run[of b cs] that by (auto simp: latched_def)
    then show ?thesis by (simp add: Assemble_deferred)
  qed
  have B: "deferredErr (run cs b) = None \<or>
             (\<exists>l n err. deferredErr (run cs b) = Some (FixUpsFailed l n err) \<and> isRangeError err)"
    if "deferredErr b = None" for cs
    using latched_run[of b cs] that by (auto simp: latched_def)
  have P: "\<forall>regString HelperString maxCap c.
       (\<exists>p. execBuilder regString HelperString maxCap c b = Inl p) \<longleftrightarrow>
       (\<exists>helperID. c = CallCall helperID \<and> policyDebugEnabled b \<and>
          (sint helperID < 0 \<or> int (length HelperString) \<le> sint helperID)) \<or>
       (\<exists>n. c = CallReserveInstructionCapacity n \<and> maxCap < n)"
    by (intro allI execBuilder_Inl_iff)
  have Q: "(\<forall>e. deferredErr b = Some e \<longrightarrow> deferredErr b' = Some e \<and> Assemble b' = Inl e) \<and>
           (deferredErr b = None \<longrightarrow>
              deferredErr b' = None \<or>
              (\<exists>l n err. deferredErr b' = Some (FixUpsFailed l n err) \<and> isRangeError err))"
    if rb: "runBuilder regString HelperString maxCap cs b = Inr b'"
    for regString HelperString maxCap cs b'
  proof -
    obtain cs' where r: "b' = run cs' b" using runBuilder_run[OF rb] by blast
    show ?thesis unfolding r using A[of _ cs'] B[of cs'] by (intro conjI allI impI) simp_all
  qed
  have R: "wfBlock b \<longrightarrow>
       (\<forall>regString HelperString maxCap cs b'.
          runBuilder regString HelperString maxCap cs b = Inr b' \<longrightarrow> wfBlock b')"
  proof (intro impI allI)
    fix regString HelperString maxCap cs b'
    assume w: "wfBlock b" and rb: "runBuilder regString HelperString maxCap cs b = Inr b'"
    obtain cs' where r: "b' = run cs' b" using runBuilder_run[OF rb] by blast
    show "wfBlock b'" unfolding r by (rule run_wfBlock[OF w])
  qed
  have E: "(\<exists>e. Assemble b = Inl e) \<or> (\<exists>prog. Assemble b = Inr prog)"
    by (cases "Assemble b") auto
  have F: "deferredErr b = None \<and> length prog = length (insns b) \<and>
          (\<forall>l \<in> fst ` set (fixUps b). \<forall>f \<in> set (fixUpsFor b l).
              \<exists>t. labelToInsnIdx b l = Some t \<and>
                  sint (Off (prog ! origInsnIdx f)) = int t - int (origInsnIdx f) - 1) \<and>
          (\<forall>i < length prog.
              (\<forall>l \<in> fst ` set (fixUps b). FixUp i \<notin> set (fixUpsFor b l)) \<longrightarrow>
              Instruction (prog ! i) = Instruction (insns b ! i))"
    if "wfBlock b" "Assemble b = Inr prog" for prog
    using Assemble_resolved[OF that] Assemble_InrD(1)[OF that(2)] by blast
  have C: "\<forall>insn target. deferredErr (addInsnWithOffsetFixupNoTrampoline insn target b) = deferredErr b"
    by simp
  have A': "\<forall>e. deferredErr b = Some e \<longrightarrow>
       (\<forall>cs. deferredErr (run cs b) = Some e \<and> Assemble (run cs b) = Inl e)"
    using A by blast
  have B': "deferredErr b = None \<longrightarrow>
       (\<forall>cs. deferredErr (run cs b) = None \<or>
             (\<exists>l n err. deferredErr (run cs b) = Some (FixUpsFailed l n err) \<and> isRangeError err))"
    using B by blast
  have Q': "\<forall>regString HelperString maxCap cs b'.
         runBuilder regString HelperString maxCap cs b = Inr b' \<longrightarrow>
           (\<forall>e. deferredErr b = Some e \<longrightarrow> deferredErr b' = Some e \<and> Assemble b' = Inl e) \<and>
           (deferredErr b = None \<longrightarrow>
              deferredErr b' = None \<or>
              (\<exists>l n err. deferredErr b' = Some (FixUpsFailed l n err) \<and> isRangeError err))"
    using Q by blast
  have F': "wfBlock b \<longrightarrow>
       (\<forall>prog. Assemble b = Inr prog \<longrightarrow>
          deferredErr b = None \<and> length prog = length (insns b) \<and>
          (\<forall>l \<in> fst ` set (fixUps b). \<forall>f \<in> set (fixUpsFor b l).
              \<exists>t. labelToInsnIdx b l = Some t \<and>
                  sint (Off (prog ! origInsnIdx f)) = int t - int (origInsnIdx f) - 1) \<and>
          (\<forall>i < length prog.
              (\<forall>l \<in> fst ` set (fixUps b). FixUp i \<notin> set (fixUpsFor b l)) \<longrightarrow>
              Instruction (prog ! i) = Instruction (insns b ! i)))"
    using F by blast
  show ?thesis
    by (intro conjI P Q' R A' B' C E F' LabelNextInsn_deferredErr)
qed

text \<open>
  The theorem on examples. \<^verbatim>\<open>Call\<close> with helper id 3 and a table of three names raises
  with debug on, and does not with id 2 or with debug off; a load does not;
  \<^verbatim>\<open>ReserveInstructionCapacity\<close> raises beyond the limit. On the Block with two pending
  fixups, binding L fails with offset 39999 and that error is deferred; the calls that
  follow return, the bind of M among them detects another error (offset 39994), and the
  Block keeps the first error, which \<open>Assemble\<close> returns. On the backward jump \<open>Assemble\<close>
  returns the program with the offset -2 written.
\<close>

theorem builder_error_policy_witness:
  "(\<exists>p. execBuilder exampleRegString exampleHelperString 1000000 (CallCall 3) (NewBlock True)
          = Inl p) \<and>
   \<not> (\<exists>p. execBuilder exampleRegString exampleHelperString 1000000 (CallCall 2) (NewBlock True)
          = Inl p) \<and>
   \<not> (\<exists>p. execBuilder exampleRegString exampleHelperString 1000000 (CallCall 3) (NewBlock False)
          = Inl p) \<and>
   \<not> (\<exists>p. execBuilder exampleRegString exampleHelperString 1000000
            (CallLoad64 R1 R10 \<lparr>Offset = - 8, Field' = ''x''\<rparr>) (NewBlock True) = Inl p) \<and>
   (\<exists>p. execBuilder exampleRegString exampleHelperString 1000000
          (CallReserveInstructionCapacity 1000001) (NewBlock False) = Inl p) \<and>
   deferredErr twoFixupBlock = None \<and>
   deferredErr (LabelNextInsn ''L'' twoFixupBlock)
     = Some (FixUpsFailed ''L'' 40000 (JumpOutOfRange 39999 ''L'')) \<and>
   runBuilder exampleRegString exampleHelperString 1000000
       [CallReserveInstructionCapacity 50000, Plain (CallLabelNextInsn ''M'')]
       (LabelNextInsn ''L'' twoFixupBlock)
     = Inr (LabelNextInsn ''M'' (LabelNextInsn ''L'' twoFixupBlock)) \<and>
   snd (applyFixUps ''M''
          ((LabelNextInsn ''L'' twoFixupBlock)
             \<lparr>labelToInsnIdx :=
                (labelToInsnIdx (LabelNextInsn ''L'' twoFixupBlock))(''M'' \<mapsto> 40000),
              insnIdxToLabels :=
                (insnIdxToLabels (LabelNextInsn ''L'' twoFixupBlock))
                  (40000 \<mapsto> labelsAt (LabelNextInsn ''L'' twoFixupBlock) 40000 @ [''M''])\<rparr>))
     = Some (JumpOutOfRange 39994 ''M'') \<and>
   deferredErr (LabelNextInsn ''M'' (LabelNextInsn ''L'' twoFixupBlock))
     = Some (FixUpsFailed ''L'' 40000 (JumpOutOfRange 39999 ''L'')) \<and>
   Assemble (LabelNextInsn ''M'' (LabelNextInsn ''L'' twoFixupBlock))
     = Inl (FixUpsFailed ''L'' 40000 (JumpOutOfRange 39999 ''L'')) \<and>
   wfBlock (NewBlock False) \<and>
   runBuilder exampleRegString exampleHelperString 1000000 (map Plain backJumpProg) (NewBlock False)
     = Inr (run backJumpProg (NewBlock False)) \<and>
   wfBlock (run backJumpProg (NewBlock False)) \<and>
   Assemble (run backJumpProg (NewBlock False))
     = Inr [MakeInsn Mov64 R0 R0 0 0, putOffset (MakeInsn JumpEq64 R1 R2 0 0) (- 2),
            MakeInsn Exit 0 0 0 0] \<and>
   fixUpsFor (run backJumpProg (NewBlock False)) ''L'' = [FixUp 1] \<and>
   labelToInsnIdx (run backJumpProg (NewBlock False)) ''L'' = Some 0 \<and>
   sint (Off (putOffset (MakeInsn JumpEq64 R1 R2 0 0) (- 2))) = - 2"
proof -
  let ?rs = exampleRegString
  let ?hs = exampleHelperString
  let ?b0 = twoFixupBlock
  let ?e = "FixUpsFailed ''L'' 40000 (JumpOutOfRange 39999 ''L'')"
  let ?b1 = "LabelNextInsn ''L'' ?b0"
  let ?b2 = "LabelNextInsn ''M'' ?b1"
  let ?cs = "[CallReserveInstructionCapacity 50000, Plain (CallLabelNextInsn ''M'')]"
  let ?p = "run backJumpProg (NewBlock False)"
  let ?prog = "[MakeInsn Mov64 R0 R0 0 0, putOffset (MakeInsn JumpEq64 R1 R2 0 0) (- 2),
            MakeInsn Exit 0 0 0 0]"
  note P = builder_error_policy[THEN conjunct1, THEN spec[where x = "?rs"],
      THEN spec[where x = "?hs"], THEN spec[where x = 1000000]]
  have hs: "length ?hs = 3" by (simp add: exampleHelperString_def)
  have dT: "policyDebugEnabled (NewBlock True)" and dF: "\<not> policyDebugEnabled (NewBlock False)"
    by (simp_all add: NewBlock_def)
  have p1: "\<exists>p. execBuilder ?rs ?hs 1000000 (CallCall 3) (NewBlock True) = Inl p"
    unfolding P[of "NewBlock True", THEN spec[where x = "CallCall 3"]] using hs dT by simp
  have p2: "\<not> (\<exists>p. execBuilder ?rs ?hs 1000000 (CallCall 2) (NewBlock True) = Inl p)"
    unfolding P[of "NewBlock True", THEN spec[where x = "CallCall 2"]] using hs by simp
  have p3: "\<not> (\<exists>p. execBuilder ?rs ?hs 1000000 (CallCall 3) (NewBlock False) = Inl p)"
    unfolding P[of "NewBlock False", THEN spec[where x = "CallCall 3"]] using dF by simp
  have p4: "\<not> (\<exists>p. execBuilder ?rs ?hs 1000000
            (CallLoad64 R1 R10 \<lparr>Offset = - 8, Field' = ''x''\<rparr>) (NewBlock True) = Inl p)"
    unfolding P[of "NewBlock True", THEN spec[where x = "CallLoad64 R1 R10 \<lparr>Offset = - 8, Field' = ''x''\<rparr>"]] by simp
  have p5: "\<exists>p. execBuilder ?rs ?hs 1000000 (CallReserveInstructionCapacity 1000001)
              (NewBlock False) = Inl p"
    unfolding P[of "NewBlock False", THEN spec[where x = "CallReserveInstructionCapacity 1000001"]]
    by simp
  have d0: "deferredErr ?b0 = None" by (simp add: twoFixupBlock_def NewBlock_def)
  have n0: "length (insns ?b0) = 40000" by (simp add: twoFixupBlock_def)
  have s: "snd (applyFixUps ''L''
                   (?b0\<lparr>labelToInsnIdx := (labelToInsnIdx ?b0)(''L'' \<mapsto> 40000),
                      insnIdxToLabels := (insnIdxToLabels ?b0)
                        (40000 \<mapsto> labelsAt ?b0 40000 @ [''L''])\<rparr>))
            = Some (JumpOutOfRange 39999 ''L'')"
    by (simp add: applyFixUps_snd fixUpsFor_def twoFixupBlock_def NewBlock_def Let_def
        MaxInt16_def MinInt16_def)
  note T0 = builder_error_policy[of ?b0 "''L''", THEN conjunct2, THEN conjunct2, THEN conjunct2,
      THEN conjunct2, THEN conjunct2, THEN conjunct1]
  have d1: "deferredErr ?b1 = Some ?e"
    by (simp only: T0 d0 n0 s option.case)
  have r: "runBuilder ?rs ?hs 1000000 ?cs ?b1 = Inr ?b2"
    by (simp add: ReserveInstructionCapacity_def)
  note T1 = builder_error_policy[of ?b1 "''L''", THEN conjunct2, THEN conjunct1, THEN spec,
      THEN spec, THEN spec, THEN spec, THEN spec, THEN mp, OF r, THEN conjunct1, THEN spec,
      THEN mp, OF d1]
  have u: "?b1 = (fst (applyFixUps ''L''
                   (?b0\<lparr>labelToInsnIdx := (labelToInsnIdx ?b0)(''L'' \<mapsto> 40000),
                      insnIdxToLabels := (insnIdxToLabels ?b0)
                        (40000 \<mapsto> labelsAt ?b0 40000 @ [''L''])\<rparr>)))
                \<lparr>deferredErr := Some ?e\<rparr>"
    using s d0 n0 by (simp add: LabelNextInsn_unfold Let_def)
  have f1: "fixUps ?b1 = [(''L'', [FixUp 0]), (''M'', [FixUp 5])]"
    unfolding u using s by (simp add: applyFixUps_fixUps twoFixupBlock_def)
  have later: "snd (applyFixUps ''M''
          (?b1\<lparr>labelToInsnIdx := (labelToInsnIdx ?b1)(''M'' \<mapsto> 40000),
               insnIdxToLabels := (insnIdxToLabels ?b1)
                  (40000 \<mapsto> labelsAt ?b1 40000 @ [''M''])\<rparr>))
     = Some (JumpOutOfRange 39994 ''M'')"
    by (simp add: applyFixUps_snd fixUpsFor_def f1 Let_def MaxInt16_def MinInt16_def)
  have w0: "wfBlock (NewBlock False)" by (rule wfBlock_NewBlock)
  have rp: "runBuilder ?rs ?hs 1000000 (map Plain backJumpProg) (NewBlock False) = Inr ?p"
    by (rule runBuilder_Plain)
  note w = builder_error_policy[of "NewBlock False" "''L''", THEN conjunct2, THEN conjunct2,
      THEN conjunct1, THEN mp, OF w0, THEN spec, THEN spec, THEN spec, THEN spec, THEN spec,
      THEN mp, OF rp]
  have c: "Assemble ?p = Inr ?prog \<and> fixUpsFor ?p ''L'' = [FixUp 1] \<and>
       labelToInsnIdx ?p ''L'' = Some 0"
    by code_simp
  have c2: "fst ` set (fixUps ?p) = {''L''}"
    by code_simp
  note T6 = builder_error_policy[of ?p "''L''", THEN conjunct2, THEN conjunct2, THEN conjunct2,
      THEN conjunct2, THEN conjunct2, THEN conjunct2, THEN conjunct2, THEN conjunct2,
      THEN mp, OF w, THEN spec, THEN mp, OF c[THEN conjunct1],
      THEN conjunct2, THEN conjunct2, THEN conjunct1]
  have "\<forall>f \<in> set (fixUpsFor ?p ''L'').
              \<exists>t. labelToInsnIdx ?p ''L'' = Some t \<and>
                  sint (Off (?prog ! origInsnIdx f)) = int t - int (origInsnIdx f) - 1"
    using T6 unfolding c2 by simp
  then have o: "sint (Off (putOffset (MakeInsn JumpEq64 R1 R2 0 0) (- 2))) = - 2"
    using c by simp
  show ?thesis by (intro conjI p1 p2 p3 p4 p5 d0 d1 r later T1[THEN conjunct1] T1[THEN conjunct2] w0 rp w
      c[THEN conjunct1] c[THEN conjunct2, THEN conjunct1] c[THEN conjunct2, THEN conjunct2] o)
qed


text \<open>
  C8, as stated, fails on a backward jump: after [label L, Mov64, JumpEq64 to L, Exit] no
  error is deferred, the fixup map still holds the fixup of L at \<open>Assemble\<close> time, and
  \<open>Assemble\<close> succeeds, writing the offset -2.
\<close>

theorem nonempty_fixups_at_Assemble_counterexample:
  "deferredErr (run backJumpProg (NewBlock False)) = None \<and>
   fixUps (run backJumpProg (NewBlock False)) = [(''L'', [FixUp 1])] \<and>
   Assemble (run backJumpProg (NewBlock False))
     = Inr [MakeInsn Mov64 R0 R0 0 0, putOffset (MakeInsn JumpEq64 R1 R2 0 0) (- 2),
            MakeInsn Exit 0 0 0 0]"
  by code_simp

text \<open>
  C8, amended. With no deferred error, \<open>Assemble\<close> resolves every outstanding fixup
  entry. It returns a program iff every entry is resolvable (its label is bound, each
  offset in range and not -1): entries of bound labels, the backward jumps, are resolved in
  this pass. An error it returns is the missing-label error of an entry whose label is
  unbound, or a range error of an entry whose label is bound; an entry with fixups and an
  unbound label always makes it return an error. On success the offsets are written.
\<close>

theorem final_resolution_pass:
  assumes "deferredErr b = None"
  shows
   "((\<exists>prog. Assemble b = Inr prog) \<longleftrightarrow> (\<forall>l \<in> fst ` set (fixUps b). resolvable b l))
    \<and> (\<forall>e. Assemble b = Inl e \<longrightarrow>
          (\<exists>l \<in> fst ` set (fixUps b).
              (e = MissingLabel l \<and> labelToInsnIdx b l = None \<and> fixUpsFor b l \<noteq> []) \<or>
              (isRangeError e \<and> labelToInsnIdx b l \<noteq> None)))
    \<and> (\<forall>l \<in> fst ` set (fixUps b).
          fixUpsFor b l \<noteq> [] \<and> labelToInsnIdx b l = None \<longrightarrow> (\<exists>e. Assemble b = Inl e))
    \<and> (wfBlock b \<longrightarrow>
        (\<forall>prog. Assemble b = Inr prog \<longrightarrow>
           length prog = length (insns b) \<and>
           (\<forall>l \<in> fst ` set (fixUps b). \<forall>f \<in> set (fixUpsFor b l).
               \<exists>t. labelToInsnIdx b l = Some t \<and>
                   sint (Off (prog ! origInsnIdx f)) = int t - int (origInsnIdx f) - 1)))"
proof -
  have A: "(\<exists>prog. Assemble b = Inr prog) \<longleftrightarrow> (\<forall>l \<in> fst ` set (fixUps b). resolvable b l)"
    by (rule Assemble_ok_iff[OF assms])
  have B: "\<forall>e. Assemble b = Inl e \<longrightarrow>
          (\<exists>l \<in> fst ` set (fixUps b).
              (e = MissingLabel l \<and> labelToInsnIdx b l = None \<and> fixUpsFor b l \<noteq> []) \<or>
              (isRangeError e \<and> labelToInsnIdx b l \<noteq> None))"
    using Assemble_error[OF assms] by blast
  have C: "\<forall>l \<in> fst ` set (fixUps b).
          fixUpsFor b l \<noteq> [] \<and> labelToInsnIdx b l = None \<longrightarrow> (\<exists>e. Assemble b = Inl e)"
  proof (intro ballI impI)
    fix l assume l: "l \<in> fst ` set (fixUps b)"
      and u: "fixUpsFor b l \<noteq> [] \<and> labelToInsnIdx b l = None"
    then obtain f where "f \<in> set (fixUpsFor b l)" by (cases "fixUpsFor b l") auto
    then have "\<not> resolvable b l" using u by (auto simp: resolvable_def)
    then have "\<not> (\<exists>prog. Assemble b = Inr prog)" using A l by blast
    then show "\<exists>e. Assemble b = Inl e" by (cases "Assemble b") auto
  qed
  have D: "wfBlock b \<longrightarrow>
        (\<forall>prog. Assemble b = Inr prog \<longrightarrow>
           length prog = length (insns b) \<and>
           (\<forall>l \<in> fst ` set (fixUps b). \<forall>f \<in> set (fixUpsFor b l).
               \<exists>t. labelToInsnIdx b l = Some t \<and>
                   sint (Off (prog ! origInsnIdx f)) = int t - int (origInsnIdx f) - 1))"
    using Assemble_resolved(1,2) by blast
  show ?thesis by (intro conjI A B C D)
qed

text \<open>
  The theorem on the backward jump, which is resolvable and assembles, and on a single
  jump to a label never bound, where \<open>Assemble\<close> returns the missing-label error.
\<close>

theorem final_resolution_pass_witness:
  "deferredErr (run backJumpProg (NewBlock False)) = None \<and>
   fst ` set (fixUps (run backJumpProg (NewBlock False))) = {''L''} \<and>
   resolvable (run backJumpProg (NewBlock False)) ''L'' \<and>
   Assemble (run backJumpProg (NewBlock False))
     = Inr [MakeInsn Mov64 R0 R0 0 0, putOffset (MakeInsn JumpEq64 R1 R2 0 0) (- 2),
            MakeInsn Exit 0 0 0 0] \<and>
   deferredErr (Block_JumpEq64 R1 R2 ''M'' (NewBlock False)) = None \<and>
   fixUps (Block_JumpEq64 R1 R2 ''M'' (NewBlock False)) = [(''M'', [FixUp 0])] \<and>
   labelToInsnIdx (Block_JumpEq64 R1 R2 ''M'' (NewBlock False)) ''M'' = None \<and>
   Assemble (Block_JumpEq64 R1 R2 ''M'' (NewBlock False)) = Inl (MissingLabel ''M'')"
proof -
  let ?p = "run backJumpProg (NewBlock False)"
  let ?q = "Block_JumpEq64 R1 R2 ''M'' (NewBlock False)"
  have d: "deferredErr ?p = None" by code_simp
  have c2: "fst ` set (fixUps ?p) = {''L''}" by code_simp
  have a: "Assemble ?p = Inr [MakeInsn Mov64 R0 R0 0 0, putOffset (MakeInsn JumpEq64 R1 R2 0 0) (- 2),
            MakeInsn Exit 0 0 0 0]"
    by code_simp
  note T = final_resolution_pass[OF d, THEN conjunct1, THEN iffD1, OF exI, OF a]
  have r: "resolvable ?p ''L''" using T unfolding c2 by simp
  have q1: "deferredErr ?q = None" by code_simp
  have q2: "fixUps ?q = [(''M'', [FixUp 0])]" by code_simp
  have q3: "labelToInsnIdx ?q ''M'' = None" by code_simp
  have q4: "Assemble ?q = Inl (MissingLabel ''M'')" by code_simp
  show ?thesis by (intro conjI d c2 r a q1 q2 q3 q4)
qed
section \<open>Independence of the map order\<close>

text \<open>
  Every method reads \<^verbatim>\<open>fixUps\<close> by key, or through its sorted keys
  (\<open>writeTrampoline\<close>), or through the number of its entries: Blocks that differ in the
  order only stay so through every call. \<open>Assemble\<close> visits the keys in the order of the
  map; when every entry resolves, each instruction is patched by the one label that has a
  fixup for it, whatever the order.
\<close>

lemma sameEntries_map_of: "sameEntries xs ys \<Longrightarrow> map_of xs = map_of ys"
  by (simp add: sameEntries_def map_of_inject_set)

lemma sameEntriesI:
  "distinct (map fst xs) \<Longrightarrow> distinct (map fst ys) \<Longrightarrow> map_of xs = map_of ys \<Longrightarrow> sameEntries xs ys"
  by (simp add: sameEntries_def map_of_inject_set)

lemma sameEntries_refl: "distinct (map fst xs) \<Longrightarrow> sameEntries xs xs"
  by (simp add: sameEntries_def)

lemma sameEntries_sym: "sameEntries xs ys \<Longrightarrow> sameEntries ys xs"
  by (auto simp: sameEntries_def)

lemma sameEntries_trans: "sameEntries xs ys \<Longrightarrow> sameEntries ys zs \<Longrightarrow> sameEntries xs zs"
  by (auto simp: sameEntries_def)

lemma sameEntries_update:
  assumes "sameEntries xs ys"
  shows "sameEntries (AList.update k v xs) (AList.update k v ys)"
proof (rule sameEntriesI)
  show "distinct (map fst (AList.update k v xs))" "distinct (map fst (AList.update k v ys))"
    using assms by (simp_all add: sameEntries_def distinct_update)
  show "map_of (AList.update k v xs) = map_of (AList.update k v ys)"
    using sameEntries_map_of[OF assms] by (simp add: update_conv')
qed

lemma sameEntries_delete:
  assumes "sameEntries xs ys"
  shows "sameEntries (AList.delete k xs) (AList.delete k ys)"
proof (rule sameEntriesI)
  show "distinct (map fst (AList.delete k xs))" "distinct (map fst (AList.delete k ys))"
    using assms by (simp_all add: sameEntries_def distinct_delete)
  show "map_of (AList.delete k xs) = map_of (AList.delete k ys)"
    using sameEntries_map_of[OF assms] by (simp add: delete_conv')
qed

lemma sameEntries_keys: "sameEntries xs ys \<Longrightarrow> set (map fst xs) = set (map fst ys)"
  by (simp add: sameEntries_def)

lemma sameEntries_sort:
  assumes "sameEntries xs ys"
  shows "sort (map fst xs) = sort (map fst ys)"
proof (rule sorted_distinct_set_unique)
  show "sorted (sort (map fst xs))" "sorted (sort (map fst ys))" by simp_all
  show "distinct (sort (map fst xs))" "distinct (sort (map fst ys))"
    using assms by (simp_all add: sameEntries_def)
  show "set (sort (map fst xs)) = set (sort (map fst ys))"
    using sameEntries_keys[OF assms] by simp
qed

lemma sameEntries_length:
  assumes "sameEntries xs ys"
  shows "length xs = length ys"
proof -
  have d: "distinct (map fst xs)" "distinct (map fst ys)"
    using assms by (simp_all add: sameEntries_def)
  have "length (map fst xs) = card (set (map fst xs))" "length (map fst ys) = card (set (map fst ys))"
    using distinct_card[OF d(1)] distinct_card[OF d(2)] by simp_all
  then show ?thesis using sameEntries_keys[OF assms] by simp
qed

lemma reorderedI:
  "b' = b\<lparr>fixUps := fx\<rparr> \<Longrightarrow> sameEntries (fixUps b) fx \<Longrightarrow> reordered b b'"
  by (simp add: reordered_def)

lemma reorderedE:
  assumes "reordered b b'"
  obtains fx where "b' = b\<lparr>fixUps := fx\<rparr>" "sameEntries (fixUps b) fx"
  using assms unfolding reordered_def by blast

lemma reordered_refl: "distinct (map fst (fixUps b)) \<Longrightarrow> reordered b b"
  by (simp add: reordered_def sameEntries_refl)

lemma reordered_sym: "reordered b b' \<Longrightarrow> reordered b' b"
proof (erule reorderedE)
  fix fx assume 1: "b' = b\<lparr>fixUps := fx\<rparr>" and 2: "sameEntries (fixUps b) fx"
  have "b = b'\<lparr>fixUps := fixUps b\<rparr>" using 1 by simp
  moreover have "sameEntries (fixUps b') (fixUps b)" using 1 2 by (simp add: sameEntries_sym)
  ultimately show "reordered b' b" by (rule reorderedI)
qed

lemma reordered_trans: "reordered a b \<Longrightarrow> reordered b c \<Longrightarrow> reordered a c"
proof (erule reorderedE, erule reorderedE)
  fix fx fy assume 1: "b = a\<lparr>fixUps := fx\<rparr>" "sameEntries (fixUps a) fx"
    and 2: "c = b\<lparr>fixUps := fy\<rparr>" "sameEntries (fixUps b) fy"
  have "c = a\<lparr>fixUps := fy\<rparr>" using 1 2 by simp
  moreover have "sameEntries (fixUps a) fy" using 1 2 sameEntries_trans by simp
  ultimately show "reordered a c" by (rule reorderedI)
qed

lemma reordered_fixUpsFor: "reordered b b' \<Longrightarrow> fixUpsFor b' l = fixUpsFor b l"
  by (auto simp: reordered_def fixUpsFor_def dest: sameEntries_map_of)


lemma nextInsnReachable_fixUps [simp]:
  "nextInsnReachable (b\<lparr>fixUps := fx\<rparr>) = nextInsnReachable b"
  by (simp add: nextInsnReachable_def labelsAt_def)

lemma labelsAt_fixUps [simp]: "labelsAt (b\<lparr>fixUps := fx\<rparr>) i = labelsAt b i"
  by (simp add: labelsAt_def)

lemma addNoTrampoline_fixUps:
  assumes "map_of fx = map_of (fixUps b)"
  shows "addInsnWithOffsetFixupNoTrampoline insn l (b\<lparr>fixUps := fx\<rparr>) =
     (addInsnWithOffsetFixupNoTrampoline insn l b)
       \<lparr>fixUps := (if nextInsnReachable b \<and> l \<noteq> ''''
                   then AList.update l (fixUpsFor b l @ [FixUp (length (insns b))]) fx
                   else fx)\<rparr>"
  using assms by (simp add: addInsnWithOffsetFixupNoTrampoline_def Let_def fixUpsFor_def)

lemma fixUps_addNoTrampoline:
  "fixUps (addInsnWithOffsetFixupNoTrampoline insn l b) =
     (if nextInsnReachable b \<and> l \<noteq> ''''
      then AList.update l (fixUpsFor b l @ [FixUp (length (insns b))]) (fixUps b)
      else fixUps b)"
  by (simp add: addInsnWithOffsetFixupNoTrampoline_def Let_def fixUpsFor_def)

lemma reordered_addNoTrampoline:
  assumes "reordered b b'"
  shows "reordered (addInsnWithOffsetFixupNoTrampoline insn l b)
                   (addInsnWithOffsetFixupNoTrampoline insn l b')"
proof -
  obtain fx where 1: "b' = b\<lparr>fixUps := fx\<rparr>" and 2: "sameEntries (fixUps b) fx"
    using assms by (rule reorderedE)
  have m: "map_of fx = map_of (fixUps b)" using sameEntries_map_of[OF 2] by simp
  show ?thesis
    unfolding 1 addNoTrampoline_fixUps[OF m]
    by (rule reorderedI[OF refl]) (simp add: fixUps_addNoTrampoline 2 sameEntries_update)
qed

lemma reordered_JumpNoTrampoline:
  "reordered b b' \<Longrightarrow> reordered (JumpNoTrampoline l b) (JumpNoTrampoline l b')"
  by (simp add: JumpNoTrampoline_def reordered_addNoTrampoline)

lemma applyFixUps_loop_fixUps:
  "applyFixUps_loop l fs (b\<lparr>fixUps := fx\<rparr>) =
     ((fst (applyFixUps_loop l fs b))\<lparr>fixUps := fx\<rparr>, snd (applyFixUps_loop l fs b))"
proof (induction fs arbitrary: b)
  case Nil
  then show ?case by simp
next
  case (Cons f fs)
  show ?case
  proof (cases "labelToInsnIdx b l")
    case None
    then show ?thesis by simp
  next
    case (Some t)
    let ?b1 = "b\<lparr>insns := (insns b)[origInsnIdx f :=
                 putOffset (insns b ! origInsnIdx f) (word_of_int (int t - int (origInsnIdx f) - 1))]\<rparr>"
    have c: "b\<lparr>fixUps := fx, insns := xs\<rparr> = b\<lparr>insns := xs, fixUps := fx\<rparr>" for xs
      by (rule Block.equality) simp_all
    show ?thesis using Some Cons.IH[of ?b1] by (simp add: Let_def c del: of_int_diff)
  qed
qed

lemma applyFixUps_fixUps_upd:
  assumes "map_of fx = map_of (fixUps b)"
  shows "applyFixUps l (b\<lparr>fixUps := fx\<rparr>) =
     ((fst (applyFixUps l b))
        \<lparr>fixUps := (if snd (applyFixUps l b) = None then AList.delete l fx else fx)\<rparr>,
      snd (applyFixUps l b))"
proof -
  have f: "fixUpsFor (b\<lparr>fixUps := fx\<rparr>) l = fixUpsFor b l"
    using assms by (simp add: fixUpsFor_def)
  show ?thesis
    unfolding applyFixUps_def f applyFixUps_loop_fixUps
    by (cases "applyFixUps_loop l (fixUpsFor b l) b") (auto split: option.splits)
qed

lemma reordered_applyFixUps:
  assumes "reordered b b'"
  shows "reordered (fst (applyFixUps l b)) (fst (applyFixUps l b'))"
    and "snd (applyFixUps l b') = snd (applyFixUps l b)"
proof -
  obtain fx where 1: "b' = b\<lparr>fixUps := fx\<rparr>" and 2: "sameEntries (fixUps b) fx"
    using assms by (rule reorderedE)
  have m: "map_of fx = map_of (fixUps b)" using sameEntries_map_of[OF 2] by simp
  show "snd (applyFixUps l b') = snd (applyFixUps l b)"
    unfolding 1 applyFixUps_fixUps_upd[OF m] by simp
  show "reordered (fst (applyFixUps l b)) (fst (applyFixUps l b'))"
    unfolding 1 applyFixUps_fixUps_upd[OF m] fst_conv
    by (rule reorderedI[OF refl]) (simp add: applyFixUps_fixUps 2 sameEntries_delete)
qed


lemma reordered_lift:
  assumes "\<And>fx. g (b\<lparr>fixUps := fx\<rparr>) = (g b)\<lparr>fixUps := fx\<rparr>"
    and "fixUps (g b) = fixUps b"
    and "reordered b b'"
  shows "reordered (g b) (g b')"
proof -
  obtain fx where 1: "b' = b\<lparr>fixUps := fx\<rparr>" and 2: "sameEntries (fixUps b) fx"
    using assms(3) by (rule reorderedE)
  show ?thesis unfolding 1 assms(1)
    by (rule reorderedI[OF refl]) (simp add: assms(2) 2)
qed

lemma reordered_fields:
  assumes "reordered b b'"
  shows "insns b' = insns b" "labelToInsnIdx b' = labelToInsnIdx b"
    "insnIdxToLabels b' = insnIdxToLabels b" "insnIdxToComments b' = insnIdxToComments b"
    "inUseJumpTargets b' = inUseJumpTargets b" "policyDebugEnabled b' = policyDebugEnabled b"
    "trampolinesEnabled b' = trampolinesEnabled b" "trampolineIdx b' = trampolineIdx b"
    "lastTrampolineAddr b' = lastTrampolineAddr b" "deferredErr b' = deferredErr b"
    "NumJumps b' = NumJumps b" "trampolineStride b' = trampolineStride b"
    "labelsAt b' i = labelsAt b i" "commentsAt b' i = commentsAt b i"
    "length (fixUps b') = length (fixUps b)"
    "sort (map fst (fixUps b')) = sort (map fst (fixUps b))"
    "fst ` set (fixUps b') = fst ` set (fixUps b)"
proof -
  obtain fx where 1: "b' = b\<lparr>fixUps := fx\<rparr>" and 2: "sameEntries (fixUps b) fx"
    using assms by (rule reorderedE)
  show "insns b' = insns b" "labelToInsnIdx b' = labelToInsnIdx b"
    "insnIdxToLabels b' = insnIdxToLabels b" "insnIdxToComments b' = insnIdxToComments b"
    "inUseJumpTargets b' = inUseJumpTargets b" "policyDebugEnabled b' = policyDebugEnabled b"
    "trampolinesEnabled b' = trampolinesEnabled b" "trampolineIdx b' = trampolineIdx b"
    "lastTrampolineAddr b' = lastTrampolineAddr b" "deferredErr b' = deferredErr b"
    "NumJumps b' = NumJumps b" "trampolineStride b' = trampolineStride b"
    "labelsAt b' i = labelsAt b i" "commentsAt b' i = commentsAt b i"
    unfolding 1 by (simp_all add: commentsAt_def)
  show "length (fixUps b') = length (fixUps b)"
    unfolding 1 using sameEntries_length[OF 2] by simp
  show "sort (map fst (fixUps b')) = sort (map fst (fixUps b))"
    unfolding 1 using sameEntries_sort[OF 2] by simp
  show "fst ` set (fixUps b') = fst ` set (fixUps b)"
    unfolding 1 using 2 by (simp add: sameEntries_def)
qed

lemma reordered_LabelNextInsn:
  assumes "reordered b b'"
  shows "reordered (LabelNextInsn l b) (LabelNextInsn l b')"
proof -
  let ?g = "\<lambda>b. b\<lparr>labelToInsnIdx := (labelToInsnIdx b)(l \<mapsto> length (insns b)),
                 insnIdxToLabels := (insnIdxToLabels b)
                    (length (insns b) \<mapsto> labelsAt b (length (insns b)) @ [l])\<rparr>"
  have g: "reordered (?g b) (?g b')"
  proof (rule reordered_lift[where g = ?g, OF _ _ assms])
    show "?g (b\<lparr>fixUps := fx\<rparr>) = (?g b)\<lparr>fixUps := fx\<rparr>" for fx
      by (rule Block.equality) simp_all
    show "fixUps (?g b) = fixUps b" by simp
  qed
  note a = reordered_applyFixUps[OF g, of l]
  show ?thesis
  proof (cases "snd (applyFixUps l (?g b))")
    case None
    then show ?thesis using a by (simp add: LabelNextInsn_unfold Let_def)
  next
    case (Some err)
    let ?h = "\<lambda>b. b\<lparr>deferredErr := Some (FixUpsFailed l (length (insns b)) err)\<rparr>"
    have h: "reordered (?h (fst (applyFixUps l (?g b)))) (?h (fst (applyFixUps l (?g b'))))"
    proof (rule reordered_lift[where g = ?h, OF _ _ a(1)])
      show "?h ((fst (applyFixUps l (?g b)))\<lparr>fixUps := fx\<rparr>)
              = (?h (fst (applyFixUps l (?g b))))\<lparr>fixUps := fx\<rparr>" for fx
        by (rule Block.equality) simp_all
      show "fixUps (?h (fst (applyFixUps l (?g b)))) = fixUps (fst (applyFixUps l (?g b)))" by simp
    qed
    have n: "length (insns (fst (applyFixUps l (?g b')))) = length (insns b')"
       "length (insns (fst (applyFixUps l (?g b)))) = length (insns b)"
      by (simp_all add: applyFixUps_length)
    show ?thesis
      using Some a h n reordered_fields(1,10)[OF assms]
      by (simp add: LabelNextInsn_unfold Let_def)
  qed
qed

lemma reordered_relay_fold:
  "reordered b b' \<Longrightarrow>
   reordered (fold (\<lambda>label b. JumpNoTrampoline label (LabelNextInsn label b)) ls b)
             (fold (\<lambda>label b. JumpNoTrampoline label (LabelNextInsn label b)) ls b')"
  by (induction ls arbitrary: b b')
     (simp_all add: reordered_JumpNoTrampoline reordered_LabelNextInsn)

lemma reordered_writeTrampoline:
  assumes "reordered b b'"
  shows "reordered (writeTrampoline b) (writeTrampoline b')"
proof -
  let ?g = "\<lambda>b. b\<lparr>lastTrampolineAddr := length (insns b)\<rparr>"
  have g: "reordered (?g b) (?g b')"
  proof (rule reordered_lift[where g = ?g, OF _ _ assms])
    show "?g (b\<lparr>fixUps := fx\<rparr>) = (?g b)\<lparr>fixUps := fx\<rparr>" for fx
      by (rule Block.equality) simp_all
    show "fixUps (?g b) = fixUps b" by simp
  qed
  show ?thesis
  proof (cases "length (fixUps b) = 0")
    case True
    then show ?thesis using g reordered_fields(15)[OF assms] by (simp add: writeTrampoline_def)
  next
    case False
    let ?h = "\<lambda>b. b\<lparr>lastTrampolineAddr := length (insns b), trampolineIdx := trampolineIdx b + 1\<rparr>"
    let ?e = "''skip-trampoline-'' @ decimal (trampolineIdx b)"
    let ?ls = "sort (map fst (fixUps b))"
    have h: "reordered (?h b) (?h b')"
    proof (rule reordered_lift[where g = ?h, OF _ _ assms])
      show "?h (b\<lparr>fixUps := fx\<rparr>) = (?h b)\<lparr>fixUps := fx\<rparr>" for fx
        by (rule Block.equality) simp_all
      show "fixUps (?h b) = fixUps b" by simp
    qed
    have w: "writeTrampoline b = LabelNextInsn ?e
         (fold (\<lambda>label b. JumpNoTrampoline label (LabelNextInsn label b)) ?ls
            (JumpNoTrampoline ?e (?h b)))"
      using False by (simp add: writeTrampoline_def Let_def)
    have w': "writeTrampoline b' = LabelNextInsn ?e
         (fold (\<lambda>label b. JumpNoTrampoline label (LabelNextInsn label b)) ?ls
            (JumpNoTrampoline ?e (?h b')))"
    proof -
      have "length (fixUps b') \<noteq> 0" using False reordered_fields(15)[OF assms] by simp
      then show ?thesis
        using reordered_fields(16,8)[OF assms] by (simp add: writeTrampoline_def Let_def)
    qed
    show ?thesis unfolding w w'
      by (intro reordered_LabelNextInsn reordered_relay_fold reordered_JumpNoTrampoline h)
  qed
qed

lemma reordered_maybeWriteTrampoline:
  "reordered b b' \<Longrightarrow> reordered (maybeWriteTrampoline n b) (maybeWriteTrampoline n b')"
  using reordered_fields(1,7,9,12)[of b b']
  by (simp add: maybeWriteTrampoline_def reordered_writeTrampoline)

lemma reordered_addInsnWithOffsetFixup:
  "reordered b b' \<Longrightarrow>
   reordered (addInsnWithOffsetFixup n l b) (addInsnWithOffsetFixup n l b')"
  unfolding addInsnWithOffsetFixup_def
  by (intro reordered_addNoTrampoline reordered_maybeWriteTrampoline)

lemma reordered_exec:
  assumes "reordered b b'"
  shows "reordered (exec c b) (exec c b')"
proof (cases c)
  case (CallInstr opcode dst src offset imm a)
  show ?thesis
    unfolding CallInstr exec.simps Instr_def add_def addInsn_def
    by (rule reordered_addInsnWithOffsetFixup[OF assms])
next
  case (CallInstrWithOffsetFixup opcode dst src l imm)
  show ?thesis
    unfolding CallInstrWithOffsetFixup exec.simps InstrWithOffsetFixup_def addWithOffsetFixup_def
    by (rule reordered_addInsnWithOffsetFixup[OF assms])
next
  case (CallJumpNoTrampoline l)
  show ?thesis unfolding CallJumpNoTrampoline exec.simps
    by (rule reordered_JumpNoTrampoline[OF assms])
next
  case (CallLabelNextInsn l)
  show ?thesis unfolding CallLabelNextInsn exec.simps
    by (rule reordered_LabelNextInsn[OF assms])
next
  case (CallAddComment c)
  let ?g = "\<lambda>b. b\<lparr>insnIdxToComments := (insnIdxToComments b)
               (length (insns b) \<mapsto> commentsAt b (length (insns b)) @ [c])\<rparr>"
  have g: "reordered (?g b) (?g b')"
  proof (rule reordered_lift[where g = ?g, OF _ _ assms])
    show "?g (b\<lparr>fixUps := fx\<rparr>) = (?g b)\<lparr>fixUps := fx\<rparr>" for fx
      by (rule Block.equality) (simp_all add: commentsAt_def)
    show "fixUps (?g b) = fixUps b" by simp
  qed
  show ?thesis unfolding CallAddComment exec.simps AddComment_def
    using assms g reordered_fields(6)[OF assms] by simp
next
  case (CallSetTrampolinesEnabled en)
  let ?g = "\<lambda>b. b\<lparr>trampolinesEnabled := en\<rparr>"
  show ?thesis unfolding CallSetTrampolinesEnabled exec.simps SetTrampolinesEnabled_def
  proof (rule reordered_lift[where g = ?g, OF _ _ assms])
    show "?g (b\<lparr>fixUps := fx\<rparr>) = (?g b)\<lparr>fixUps := fx\<rparr>" for fx
      by (rule Block.equality) simp_all
    show "fixUps (?g b) = fixUps b" by simp
  qed
next
  case (CallSetTrampolineStride s)
  let ?g = "\<lambda>b. b\<lparr>trampolineStride := s\<rparr>"
  have g: "reordered (?g b) (?g b')"
  proof (rule reordered_lift[where g = ?g, OF _ _ assms])
    show "?g (b\<lparr>fixUps := fx\<rparr>) = (?g b)\<lparr>fixUps := fx\<rparr>" for fx
      by (rule Block.equality) simp_all
    show "fixUps (?g b) = fixUps b" by simp
  qed
  show ?thesis unfolding CallSetTrampolineStride exec.simps SetTrampolineStride_def
    using assms g by simp
qed

lemma reordered_run: "reordered b b' \<Longrightarrow> reordered (run cs b) (run cs b')"
  by (induction cs arbitrary: b b') (simp_all add: reordered_exec)


lemma reordered_wfBlock:
  assumes "reordered b b'" and "wfBlock b"
  shows "wfBlock b'"
proof -
  obtain fx where 1: "b' = b\<lparr>fixUps := fx\<rparr>" and 2: "sameEntries (fixUps b) fx"
    using assms(1) by (rule reorderedE)
  have m: "map_of fx = map_of (fixUps b)" using sameEntries_map_of[OF 2] by simp
  have d: "distinct (map fst fx)" using 2 by (simp add: sameEntries_def)
  show ?thesis
  proof (rule wfBlockI[of b' fx "insns b"])
    show "fixUps b' = fx" "insns b' = insns b" unfolding 1 by simp_all
    show "distinct (map fst fx)" by (rule d)
    show "length (Instruction n) = 8" if "n \<in> set (insns b)" for n
      using wfBlockD(2)[OF assms(2) that] .
    show "origInsnIdx f < length (insns b)" if "map_of fx l = Some fs" "f \<in> set fs" for l fs f
      using wfBlockD(3)[OF assms(2), of l fs f] that unfolding m by simp
    show "set fs \<inter> set fs' = {}"
      if "map_of fx l = Some fs" "map_of fx l' = Some fs'" "l \<noteq> l'" for l l' fs fs'
      using wfBlockD(4)[OF assms(2), of l fs l' fs'] that unfolding m by simp
  qed
qed

lemma reordered_resolvable: "reordered b b' \<Longrightarrow> resolvable b' l = resolvable b l"
  by (simp add: resolvable_def reordered_fixUpsFor reordered_fields(2))

lemma Assemble_loop_reordered:
  assumes wf: "wfBlock b" and r: "reordered b b'" and s: "set ks' = set ks"
    and ok: "snd (Assemble_loop ks b) = None"
  shows "snd (Assemble_loop ks' b') = None"
    and "insns (fst (Assemble_loop ks' b')) = insns (fst (Assemble_loop ks b))"
proof -
  have wf': "wfBlock b'" by (rule reordered_wfBlock[OF r wf])
  show ok': "snd (Assemble_loop ks' b') = None"
    using ok unfolding Assemble_loop_ok_iff s by (simp add: reordered_resolvable[OF r])
  show "insns (fst (Assemble_loop ks' b')) = insns (fst (Assemble_loop ks b))"
  proof (rule nth_equalityI)
    show "length (insns (fst (Assemble_loop ks' b'))) = length (insns (fst (Assemble_loop ks b)))"
      by (simp add: Assemble_loop_length reordered_fields(1)[OF r])
  next
    fix i assume "i < length (insns (fst (Assemble_loop ks' b')))"
    show "insns (fst (Assemble_loop ks' b')) ! i = insns (fst (Assemble_loop ks b)) ! i"
    proof (cases "\<exists>l \<in> set ks. FixUp i \<in> set (fixUpsFor b l)")
      case True
      then obtain l where l: "l \<in> set ks" "FixUp i \<in> set (fixUpsFor b l)" by blast
      have l': "l \<in> set ks'" "FixUp i \<in> set (fixUpsFor b' l)"
        using l s by (simp_all add: reordered_fixUpsFor[OF r])
      show ?thesis
        unfolding Assemble_loop_nth_patched[OF wf ok l] Assemble_loop_nth_patched[OF wf' ok' l']
        by (simp add: reordered_fields(1,2)[OF r])
    next
      case False
      then have n: "\<forall>l \<in> set ks. FixUp i \<notin> set (fixUpsFor b l)" by blast
      then have n': "\<forall>l \<in> set ks'. FixUp i \<notin> set (fixUpsFor b' l)"
        using s by (simp add: reordered_fixUpsFor[OF r])
      show ?thesis
        unfolding Assemble_loop_nth_other[OF ok n] Assemble_loop_nth_other[OF ok' n']
        by (simp add: reordered_fields(1)[OF r])
    qed
  qed
qed

lemma addDebugInfo_cong:
  "insns b' = insns b \<Longrightarrow> insnIdxToLabels b' = insnIdxToLabels b \<Longrightarrow>
   insnIdxToComments b' = insnIdxToComments b \<Longrightarrow> addDebugInfo b' = addDebugInfo b"
  by (simp add: addDebugInfo_def)

lemma Assemble_reordered_Inr:
  assumes wf: "wfBlock b" and r: "reordered b b'" and a: "Assemble b = Inr prog"
  shows "Assemble b' = Inr prog"
proof -
  let ?ks = "map fst (fixUps b)" and ?ks' = "map fst (fixUps b')"
  have d: "deferredErr b = None" and ok: "snd (Assemble_loop ?ks b) = None"
    using Assemble_InrD(1,2)[OF a] by simp_all
  have s: "set ?ks' = set ?ks" using reordered_fields(17)[OF r] by simp
  note L = Assemble_loop_reordered[OF wf r s ok]
  have d': "deferredErr b' = None" using d reordered_fields(10)[OF r] by simp
  have dbg: "addDebugInfo (fst (Assemble_loop ?ks' b')) = addDebugInfo (fst (Assemble_loop ?ks b))"
    by (rule addDebugInfo_cong)
       (simp_all add: L(2) Assemble_loop_insnIdxToLabels Assemble_loop_insnIdxToComments
          reordered_fields(3,4)[OF r])
  show ?thesis
    using a unfolding Assemble_no_deferred[OF d] Assemble_no_deferred[OF d']
    by (auto simp: ok L dbg reordered_fields(6)[OF r] Assemble_loop_policyDebugEnabled
        split: if_splits)
qed

lemma Assemble_reordered_Inl:
  assumes wf: "wfBlock b" and r: "reordered b b'" and a: "Assemble b = Inl e"
  shows "\<exists>e'. Assemble b' = Inl e'"
proof (cases "Assemble b'")
  case (Inl e')
  then show ?thesis by blast
next
  case (Inr prog)
  have "Assemble b = Inr prog"
    by (rule Assemble_reordered_Inr[OF reordered_wfBlock[OF r wf] reordered_sym[OF r] Inr])
  then show ?thesis using a by simp
qed

lemma runsTo_reordered:
  assumes "runsTo cs b b'" and "wfBlock b"
  shows "reordered (run cs b) b'"
  using assms
proof (induction rule: runsTo.induct)
  case (runsTo_Nil b b')
  then show ?case by simp
next
  case (runsTo_Cons b b1 cs c b')
  have w1: "wfBlock (exec c b1)"
    by (rule wfBlock_exec[OF reordered_wfBlock[OF runsTo_Cons.hyps(1) runsTo_Cons.prems]])
  have 1: "reordered (run cs (exec c b)) (run cs (exec c b1))"
    by (rule reordered_run[OF reordered_exec[OF runsTo_Cons.hyps(1)]])
  have 2: "reordered (run cs (exec c b1)) b'" by (rule runsTo_Cons.IH[OF w1])
  show ?case using reordered_trans[OF 1 2] by simp
qed

lemma runsTo_run: "runsTo cs b (run cs b)" if "wfBlock b"
  using that
proof (induction cs arbitrary: b)
  case Nil
  then show ?case by (simp add: runsTo_Nil reordered_refl wfBlockD(1))
next
  case (Cons c cs)
  have "runsTo cs (exec c b) (run cs (exec c b))"
    by (rule Cons.IH[OF wfBlock_exec[OF Cons.prems]])
  then show ?case
    using runsTo_Cons[OF reordered_refl[OF wfBlockD(1)[OF Cons.prems]]] by simp
qed

lemma reordered_rev:
  assumes "distinct (map fst (fixUps b))"
  shows "reordered b (b\<lparr>fixUps := rev (fixUps b)\<rparr>)"
  by (rule reorderedI[OF refl]) (simp add: sameEntries_def assms distinct_rev rev_map[symmetric])

lemma runsTo_runRev: "runsTo cs b (runRev cs b)" if "wfBlock b"
  using that
proof (induction cs arbitrary: b)
  case Nil
  then show ?case by (simp add: runsTo_Nil reordered_rev wfBlockD(1))
next
  case (Cons c cs)
  let ?b1 = "b\<lparr>fixUps := rev (fixUps b)\<rparr>"
  have r: "reordered b ?b1" by (rule reordered_rev[OF wfBlockD(1)[OF Cons.prems]])
  have "runsTo cs (exec c ?b1) (runRev cs (exec c ?b1))"
    by (rule Cons.IH[OF wfBlock_exec[OF reordered_wfBlock[OF r Cons.prems]]])
  then show ?case using runsTo_Cons[OF r] by simp
qed


lemma runsTo_reorder:
  "runsTo cs b b1 \<Longrightarrow> reordered b1 c \<Longrightarrow> runsTo cs b c"
proof (induction rule: runsTo.induct)
  case (runsTo_Nil b b')
  then show ?case using reordered_trans runsTo.runsTo_Nil by blast
next
  case (runsTo_Cons b b1 cs c' b')
  then show ?case using runsTo.runsTo_Cons by blast
qed

section \<open>Determinism\<close>

text \<open>
  C6. Two runs of one call sequence from a well-formed Block, each meeting the fixup map
  in an order of its own at every call and at \<open>Assemble\<close>, leave the same instructions,
  label positions, deferred error and unresolved targets; when \<open>Assemble\<close> returns a
  program after one it returns the same program after the other, and when it returns an
  error after one it returns an error after the other (which error can depend on the
  order). The run that keeps the order, \<open>run\<close>, is one of them. The trampoline writer
  goes through the sorted keys, so the instructions it writes do not depend on the order.
\<close>

theorem assembly_deterministic:
  assumes "wfBlock b" and "runsTo cs b b1" and "runsTo cs b b2"
  shows "runsTo cs b (run cs b)
    \<and> insns b1 = insns b2
    \<and> labelToInsnIdx b1 = labelToInsnIdx b2
    \<and> deferredErr b1 = deferredErr b2
    \<and> UnresolvedJumpTargets b1 = UnresolvedJumpTargets b2
    \<and> (\<forall>prog. Assemble b1 = Inr prog \<longrightarrow> Assemble b2 = Inr prog)
    \<and> ((\<exists>e. Assemble b1 = Inl e) \<longrightarrow> (\<exists>e. Assemble b2 = Inl e))
    \<and> (\<forall>x y. reordered x y \<longrightarrow>
          insns (writeTrampoline y) = insns (writeTrampoline x) \<and>
          reordered (writeTrampoline x) (writeTrampoline y))"
proof -
  have r1: "reordered (run cs b) b1" and r2: "reordered (run cs b) b2"
    using runsTo_reordered assms by blast+
  have r: "reordered b1 b2" by (rule reordered_trans[OF reordered_sym[OF r1] r2])
  have w1: "wfBlock b1" by (rule reordered_wfBlock[OF r1 run_wfBlock[OF assms(1)]])
  have A: "\<forall>prog. Assemble b1 = Inr prog \<longrightarrow> Assemble b2 = Inr prog"
    using Assemble_reordered_Inr[OF w1 r] by blast
  have B: "(\<exists>e. Assemble b1 = Inl e) \<longrightarrow> (\<exists>e. Assemble b2 = Inl e)"
    using Assemble_reordered_Inl[OF w1 r] by blast
  have T: "\<forall>x y. reordered x y \<longrightarrow>
          insns (writeTrampoline y) = insns (writeTrampoline x) \<and>
          reordered (writeTrampoline x) (writeTrampoline y)"
    using reordered_writeTrampoline reordered_fields(1) by blast
  have U: "UnresolvedJumpTargets b1 = UnresolvedJumpTargets b2"
    using reordered_fields(16)[OF r] by (simp add: UnresolvedJumpTargets_def)
  show ?thesis
    using runsTo_run[OF assms(1)] reordered_fields(1,2,10)[OF r] U A B T by simp
qed

text \<open>
  The theorem on three programs from the empty Block. With B registered before A and
  both outstanding at the trampoline, the run that reverses the map meets them as A, B
  where the other meets B, A; both give the same program, the relay jump for A before
  the one for B. With two backward jumps left to \<open>Assemble\<close>, both orders of the map
  give the same program. With two labels never bound, \<open>Assemble\<close> returns an error in
  both orders, naming the label it visits first.
\<close>

theorem assembly_deterministic_witness:
  "wfBlock (NewBlock False) \<and>
   runsTo twoLabelProg (NewBlock False) (run twoLabelProg (NewBlock False)) \<and>
   runsTo twoLabelProg (NewBlock False) (runRev twoLabelProg (NewBlock False)) \<and>
   map fst (fixUps (run (take 3 twoLabelProg) (NewBlock False))) = [''B'', ''A''] \<and>
   map fst (fixUps (runRev (take 3 twoLabelProg) (NewBlock False))) = [''A'', ''B''] \<and>
   Assemble (run twoLabelProg (NewBlock False))
     = Inr [putOffset (MakeInsn JumpEq64 R1 R2 0 0) 3, putOffset (MakeInsn JumpEq64 R1 R3 0 0) 1,
            putOffset (MakeInsn JumpA 0 0 0 0) 2, putOffset (MakeInsn JumpA 0 0 0 0) 2,
            putOffset (MakeInsn JumpA 0 0 0 0) 1, MakeInsn Mov64 R0 R0 0 0,
            MakeInsn Exit 0 0 0 0] \<and>
   Assemble (runRev twoLabelProg (NewBlock False))
     = Inr [putOffset (MakeInsn JumpEq64 R1 R2 0 0) 3, putOffset (MakeInsn JumpEq64 R1 R3 0 0) 1,
            putOffset (MakeInsn JumpA 0 0 0 0) 2, putOffset (MakeInsn JumpA 0 0 0 0) 2,
            putOffset (MakeInsn JumpA 0 0 0 0) 1, MakeInsn Mov64 R0 R0 0 0,
            MakeInsn Exit 0 0 0 0] \<and>
   runsTo twoBackJumpProg (NewBlock False)
     ((run twoBackJumpProg (NewBlock False))
        \<lparr>fixUps := rev (fixUps (run twoBackJumpProg (NewBlock False)))\<rparr>) \<and>
   fixUps (run twoBackJumpProg (NewBlock False)) = [(''Y'', [FixUp 2]), (''X'', [FixUp 3])] \<and>
   Assemble (run twoBackJumpProg (NewBlock False))
     = Inr [MakeInsn Mov64 R0 R0 0 0, MakeInsn Mov64 R0 R0 0 0,
            putOffset (MakeInsn JumpEq64 R1 R2 0 0) (- 2),
            putOffset (MakeInsn JumpEq64 R1 R3 0 0) (- 4), MakeInsn Exit 0 0 0 0] \<and>
   Assemble ((run twoBackJumpProg (NewBlock False))
        \<lparr>fixUps := rev (fixUps (run twoBackJumpProg (NewBlock False)))\<rparr>)
     = Inr [MakeInsn Mov64 R0 R0 0 0, MakeInsn Mov64 R0 R0 0 0,
            putOffset (MakeInsn JumpEq64 R1 R2 0 0) (- 2),
            putOffset (MakeInsn JumpEq64 R1 R3 0 0) (- 4), MakeInsn Exit 0 0 0 0] \<and>
   Assemble (run twoUnboundProg (NewBlock False)) = Inl (MissingLabel ''A'') \<and>
   Assemble (runRev twoUnboundProg (NewBlock False)) = Inl (MissingLabel ''B'') \<and>
   (\<exists>e. Assemble (runRev twoUnboundProg (NewBlock False)) = Inl e)"
proof -
  let ?b0 = "NewBlock False"
  let ?p1 = "[putOffset (MakeInsn JumpEq64 R1 R2 0 0) 3, putOffset (MakeInsn JumpEq64 R1 R3 0 0) 1,
            putOffset (MakeInsn JumpA 0 0 0 0) 2, putOffset (MakeInsn JumpA 0 0 0 0) 2,
            putOffset (MakeInsn JumpA 0 0 0 0) 1, MakeInsn Mov64 R0 R0 0 0,
            MakeInsn Exit 0 0 0 0]"
  let ?p2 = "[MakeInsn Mov64 R0 R0 0 0, MakeInsn Mov64 R0 R0 0 0,
            putOffset (MakeInsn JumpEq64 R1 R2 0 0) (- 2),
            putOffset (MakeInsn JumpEq64 R1 R3 0 0) (- 4), MakeInsn Exit 0 0 0 0]"
  let ?r2 = "run twoBackJumpProg ?b0"
  have w: "wfBlock ?b0" by (rule wfBlock_NewBlock)
  have a1: "runsTo twoLabelProg ?b0 (runRev twoLabelProg ?b0)" by (rule runsTo_runRev[OF w])
  note T1 = assembly_deterministic[OF w a1 a1, THEN conjunct1]
  note D1 = assembly_deterministic[OF w T1 a1]
  have f1: "map fst (fixUps (run (take 3 twoLabelProg) ?b0)) = [''B'', ''A'']" by code_simp
  have f2: "map fst (fixUps (runRev (take 3 twoLabelProg) ?b0)) = [''A'', ''B'']" by code_simp
  have e1: "Assemble (run twoLabelProg ?b0) = Inr ?p1" by code_simp
  have e1': "Assemble (runRev twoLabelProg ?b0) = Inr ?p1"
    using D1 e1 by blast
  have b1: "runsTo twoBackJumpProg ?b0 ?r2" by (rule runsTo_run[OF w])
  have b2: "runsTo twoBackJumpProg ?b0 (?r2\<lparr>fixUps := rev (fixUps ?r2)\<rparr>)"
    by (rule runsTo_reorder[OF b1 reordered_rev[OF wfBlockD(1)[OF run_wfBlock[OF w]]]])
  note D2 = assembly_deterministic[OF w b1 b2]
  have f3: "fixUps ?r2 = [(''Y'', [FixUp 2]), (''X'', [FixUp 3])]" by code_simp
  have e2: "Assemble ?r2 = Inr ?p2" by code_simp
  have e2': "Assemble (?r2\<lparr>fixUps := rev (fixUps ?r2)\<rparr>) = Inr ?p2"
    using D2 e2 by blast
  have c1: "runsTo twoUnboundProg ?b0 (run twoUnboundProg ?b0)" by (rule runsTo_run[OF w])
  have c2: "runsTo twoUnboundProg ?b0 (runRev twoUnboundProg ?b0)" by (rule runsTo_runRev[OF w])
  note D3 = assembly_deterministic[OF w c1 c2]
  have e3: "Assemble (run twoUnboundProg ?b0) = Inl (MissingLabel ''A'')" by code_simp
  have e4: "Assemble (runRev twoUnboundProg ?b0) = Inl (MissingLabel ''B'')" by code_simp
  have e5: "\<exists>e. Assemble (runRev twoUnboundProg ?b0) = Inl e"
    using D3 e3 by blast
  show ?thesis
    by (intro conjI w T1 a1 f1 f2 e1 e1' b2 f3 e2 e2' e3 e4 e5)
qed



end
